theory Spec2Isabelle
  imports Main "HOL-Library.AList" "HOL-Library.Sublist"
begin

section \<open>Lexer (src/sysml\_visualizer/src/parser/lexer.ts)\<close>

text \<open>
  Source text is a list of characters; \<open>source[i]\<close> out of range is \<open>undefined\<close> in the
  source, which compares unequal to every character and matches no character class, so every
  read below is guarded by the range test the source relies on. Characters are Isabelle's
  8-bit \<open>char\<close>; on that range the regular expression class \<open>\\s\<close> is the six ASCII white
  space characters and the no-break space 0xA0.
\<close>

datatype TokenType =
    KEYWORD | IDENTIFIER | STRING | NUMBER
  | LBRACE | RBRACE | LBRACKET | RBRACKET | LPAREN | RPAREN
  | COLON | SEMICOLON | EQUALS | COMMA | DOT | COMMENT | EOF

record Token =
  ttype :: TokenType
  tvalue :: string
  tline :: nat
  tcolumn :: nat

definition KEYWORDS :: "string list" where
  "KEYWORDS = [''package'', ''part'', ''def'', ''port'', ''item'', ''requirement'', ''state'',
     ''transition'', ''attribute'', ''interface'', ''connect'', ''bind'', ''entry'', ''then'',
     ''first'', ''accept'', ''action'', ''inout'', ''in'', ''out'', ''id'', ''text'']"

definition newline :: char where
  "newline = CHR 0x0A"

definition isSpace :: "char \<Rightarrow> bool" where
  "isSpace c = (c \<in> set [CHR 0x09, CHR 0x0A, CHR 0x0B, CHR 0x0C, CHR 0x0D, CHR '' '', CHR 0xA0])"

definition isDigit :: "char \<Rightarrow> bool" where
  "isDigit c = (c \<in> set ''0123456789'')"

definition isIdentStart :: "char \<Rightarrow> bool" where
  "isIdentStart c = (c \<in> set ''abcdefghijklmnopqrstuvwxyzABCDEFGHIJKLMNOPQRSTUVWXYZ_'')"

definition isIdentPart :: "char \<Rightarrow> bool" where
  "isIdentPart c = (isIdentStart c \<or> isDigit c)"

definition isNumberPart :: "char \<Rightarrow> bool" where
  "isNumberPart c = (isDigit c \<or> c = CHR ''.'')"

text \<open>\<open>source[pos + 1] === c\<close>: false when \<open>pos + 1\<close> is out of range.\<close>

definition nextIs :: "string \<Rightarrow> nat \<Rightarrow> (char \<Rightarrow> bool) \<Rightarrow> bool" where
  "nextIs source pos p = (pos + 1 < length source \<and> p (source ! (pos + 1)))"

text \<open>\<open>source.slice(start, end)\<close>, which clamps \<open>end\<close> to the length of the source.\<close>

definition slice :: "string \<Rightarrow> nat \<Rightarrow> nat \<Rightarrow> string" where
  "slice source start end = take (end - start) (drop start source)"

definition singleTokens :: "(char \<times> TokenType) list" where
  "singleTokens = [(CHR ''{'', LBRACE), (CHR ''}'', RBRACE), (CHR ''['', LBRACKET),
     (CHR '']'', RBRACKET), (CHR ''('', LPAREN), (CHR '')'', RPAREN), (CHR '':'', COLON),
     (CHR '';'', SEMICOLON), (CHR ''='', EQUALS), (CHR '','', COMMA), (CHR ''.'', DOT)]"

text \<open>The local variables of \<open>tokenize\<close>.\<close>

record LexState =
  lpos :: nat
  lline :: nat
  lcolumn :: nat
  ltokens :: "Token list"

definition push :: "Token \<Rightarrow> LexState \<Rightarrow> LexState" where
  "push t st = st\<lparr>ltokens := ltokens st @ [t]\<rparr>"

text \<open>Line 78: \<open>while (pos < source.length && source[pos] !== '\\n') pos++\<close>.\<close>

function lineCommentLoop :: "string \<Rightarrow> LexState \<Rightarrow> LexState" where
  "lineCommentLoop source st =
     (if lpos st < length source \<and> source ! lpos st \<noteq> newline
      then lineCommentLoop source (st\<lparr>lpos := lpos st + 1\<rparr>)
      else st)"
  by pat_completeness auto
termination
  by (relation "measure (\<lambda>(source, st). length source - lpos st)") auto

text \<open>Lines 94-100: the scan for the closing delimiter of a block comment.\<close>

function blockCommentLoop :: "string \<Rightarrow> LexState \<Rightarrow> LexState" where
  "blockCommentLoop source st =
     (if lpos st < length source - 1
         \<and> \<not> (source ! lpos st = CHR ''*'' \<and> source ! (lpos st + 1) = CHR ''/'')
      then blockCommentLoop source
             ((if source ! lpos st = newline then st\<lparr>lline := lline st + 1, lcolumn := 1\<rparr> else st)
                \<lparr>lpos := lpos st + 1\<rparr>)
      else st)"
  by pat_completeness auto
termination
  by (relation "measure (\<lambda>(source, st). length source - lpos st)") auto

text \<open>Lines 117-125: the scan for the closing quote of a string literal.\<close>

function stringLoop :: "string \<Rightarrow> LexState \<Rightarrow> LexState" where
  "stringLoop source st =
     (if lpos st < length source \<and> source ! lpos st \<noteq> CHR 0x22
      then stringLoop source
             ((if source ! lpos st = newline then st\<lparr>lline := lline st + 1, lcolumn := 1\<rparr>
               else st\<lparr>lcolumn := lcolumn st + 1\<rparr>)
                \<lparr>lpos := lpos st + 1\<rparr>)
      else st)"
  by pat_completeness auto
termination
  by (relation "measure (\<lambda>(source, st). length source - lpos st)") auto

text \<open>Lines 141-144 and 158-161: the scans of a number and of an identifier.\<close>

function charsLoop :: "(char \<Rightarrow> bool) \<Rightarrow> string \<Rightarrow> LexState \<Rightarrow> LexState" where
  "charsLoop p source st =
     (if lpos st < length source \<and> p (source ! lpos st)
      then charsLoop p source (st\<lparr>lpos := lpos st + 1, lcolumn := lcolumn st + 1\<rparr>)
      else st)"
  by pat_completeness auto
termination
  by (relation "measure (\<lambda>(p, source, st). length source - lpos st)") auto

declare lineCommentLoop.simps [simp del] blockCommentLoop.simps [simp del]
  stringLoop.simps [simp del] charsLoop.simps [simp del]

text \<open>
  One iteration of the main loop of \<open>tokenize\<close> (lines 61-201), entered with
  \<open>pos < source.length\<close>; each \<open>continue\<close> of the source is the end of a branch here.
\<close>

definition lexStep :: "string \<Rightarrow> LexState \<Rightarrow> LexState" where
  "lexStep source st =
    (let char = source ! lpos st; pos = lpos st; line = lline st; column = lcolumn st in
     if isSpace char then
       (if char = newline then st\<lparr>lline := line + 1, lcolumn := 1\<rparr>
        else st\<lparr>lcolumn := column + 1\<rparr>)\<lparr>lpos := pos + 1\<rparr>
     else if char = CHR ''/'' \<and> nextIs source pos (\<lambda>c. c = CHR ''/'') then
       (let st1 = lineCommentLoop source st in
        push \<lparr>ttype = COMMENT, tvalue = slice source pos (lpos st1),
              tline = lline st1, tcolumn = lcolumn st1\<rparr> st1)
     else if char = CHR ''/'' \<and> nextIs source pos (\<lambda>c. c = CHR ''*'') then
       (let st1 = blockCommentLoop source (st\<lparr>lpos := pos + 2\<rparr>);
            st2 = st1\<lparr>lpos := lpos st1 + 2\<rparr> in
        push \<lparr>ttype = COMMENT, tvalue = slice source pos (lpos st2),
              tline = lline st2, tcolumn = lcolumn st2\<rparr> st2)
     else if char = CHR 0x22 then
       (let startCol = column;
            st1 = stringLoop source (st\<lparr>lpos := pos + 1, lcolumn := column + 1\<rparr>);
            st2 = push \<lparr>ttype = STRING, tvalue = slice source (pos + 1) (lpos st1),
                        tline = lline st1, tcolumn = startCol\<rparr> st1 in
        st2\<lparr>lpos := lpos st2 + 1, lcolumn := lcolumn st2 + 1\<rparr>)
     else if isDigit char \<or> (char = CHR ''.'' \<and> nextIs source pos isDigit) then
       (let startCol = column;
            st1 = charsLoop isNumberPart source st in
        push \<lparr>ttype = NUMBER, tvalue = slice source pos (lpos st1),
              tline = lline st1, tcolumn = startCol\<rparr> st1)
     else if isIdentStart char then
       (let startCol = column;
            st1 = charsLoop isIdentPart source st;
            val = slice source pos (lpos st1) in
        push \<lparr>ttype = (if val \<in> set KEYWORDS then KEYWORD else IDENTIFIER), tvalue = val,
              tline = lline st1, tcolumn = startCol\<rparr> st1)
     else (case map_of singleTokens char of
             Some ty \<Rightarrow>
               (push \<lparr>ttype = ty, tvalue = [char], tline = line, tcolumn = column\<rparr> st)
                 \<lparr>lpos := pos + 1, lcolumn := column + 1\<rparr>
           | None \<Rightarrow> st\<lparr>lpos := pos + 1, lcolumn := column + 1\<rparr>))"

lemma lineCommentLoop_pos: "lpos st \<le> lpos (lineCommentLoop source st)"
proof (induction source st rule: lineCommentLoop.induct)
  case (1 source st)
  show ?case
  proof (cases "lpos st < length source \<and> source ! lpos st \<noteq> newline")
    case True
    with 1 show ?thesis by (subst lineCommentLoop.simps) auto
  next
    case False
    then show ?thesis by (subst lineCommentLoop.simps) auto
  qed
qed

lemma lineCommentLoop_step:
  "lpos st < length source \<Longrightarrow> source ! lpos st \<noteq> newline
   \<Longrightarrow> lpos st < lpos (lineCommentLoop source st)"
  using lineCommentLoop_pos [of "st\<lparr>lpos := lpos st + 1\<rparr>" source]
  by (subst lineCommentLoop.simps) auto

lemma blockCommentLoop_pos: "lpos st \<le> lpos (blockCommentLoop source st)"
proof (induction source st rule: blockCommentLoop.induct)
  case (1 source st)
  show ?case
  proof (cases "lpos st < length source - 1
         \<and> \<not> (source ! lpos st = CHR ''*'' \<and> source ! (lpos st + 1) = CHR ''/'')")
    case True
    with 1 show ?thesis by (subst blockCommentLoop.simps) (auto split: if_splits)
  next
    case False
    then show ?thesis by (subst blockCommentLoop.simps) auto
  qed
qed

lemma stringLoop_pos: "lpos st \<le> lpos (stringLoop source st)"
proof (induction source st rule: stringLoop.induct)
  case (1 source st)
  show ?case
  proof (cases "lpos st < length source \<and> source ! lpos st \<noteq> CHR 0x22")
    case True
    with 1 show ?thesis by (subst stringLoop.simps) (auto split: if_splits)
  next
    case False
    then show ?thesis by (subst stringLoop.simps) auto
  qed
qed

lemma charsLoop_pos: "lpos st \<le> lpos (charsLoop p source st)"
proof (induction p source st rule: charsLoop.induct)
  case (1 p source st)
  show ?case
  proof (cases "lpos st < length source \<and> p (source ! lpos st)")
    case True
    with 1 show ?thesis by (subst charsLoop.simps) auto
  next
    case False
    then show ?thesis by (subst charsLoop.simps) auto
  qed
qed

lemma charsLoop_step:
  "lpos st < length source \<Longrightarrow> p (source ! lpos st)
   \<Longrightarrow> lpos st < lpos (charsLoop p source st)"
  using charsLoop_pos [of "st\<lparr>lpos := lpos st + 1, lcolumn := lcolumn st + 1\<rparr>" p source]
  by (subst charsLoop.simps) auto

lemma lexStep_advances:
  assumes "lpos st < length source"
  shows "lpos st < lpos (lexStep source st)"
proof -
  have a: "source ! lpos st \<noteq> newline \<Longrightarrow> lpos st < lpos (lineCommentLoop source st)"
    using assms by (rule lineCommentLoop_step)
  have b: "lpos st + 2 \<le> lpos (blockCommentLoop source (st\<lparr>lpos := lpos st + 2\<rparr>))"
    using blockCommentLoop_pos [of "st\<lparr>lpos := lpos st + 2\<rparr>" source] by simp
  have c: "lpos st + 1
      \<le> lpos (stringLoop source (st\<lparr>lpos := lpos st + 1, lcolumn := lcolumn st + 1\<rparr>))"
    using stringLoop_pos [of "st\<lparr>lpos := lpos st + 1, lcolumn := lcolumn st + 1\<rparr>" source]
    by simp
  have d: "isNumberPart (source ! lpos st)
      \<Longrightarrow> lpos st < lpos (charsLoop isNumberPart source st)"
    using assms by (rule charsLoop_step)
  have e: "isIdentPart (source ! lpos st)
      \<Longrightarrow> lpos st < lpos (charsLoop isIdentPart source st)"
    using assms by (rule charsLoop_step)
  have nl: "newline \<noteq> CHR ''/''" by (simp add: newline_def)
  show ?thesis
    using a b c d e nl
    by (auto simp: lexStep_def Let_def push_def isNumberPart_def isIdentPart_def
        split: option.splits)
qed

text \<open>Lines 60 and 204-205: the main loop, then the end-of-input token.\<close>

function tokenizeLoop :: "string \<Rightarrow> LexState \<Rightarrow> Token list" where
  "tokenizeLoop source st =
     (if lpos st < length source then tokenizeLoop source (lexStep source st)
      else ltokens st @ [\<lparr>ttype = EOF, tvalue = '''', tline = lline st, tcolumn = lcolumn st\<rparr>])"
  by pat_completeness auto
termination
  by (relation "measure (\<lambda>(source, st). length source - lpos st)")
    (simp_all add: diff_less_mono2 lexStep_advances)

declare tokenizeLoop.simps [simp del]

definition tokenize :: "string \<Rightarrow> Token list" where
  "tokenize source = tokenizeLoop source \<lparr>lpos = 0, lline = 1, lcolumn = 1, ltokens = []\<rparr>"

section \<open>Model (src/sysml\_visualizer/src/parser/types.ts)\<close>

datatype ElementType =
    type_package | type_part_def | type_part | type_port_def | type_port | type_item_def
  | type_item | type_requirement_def | type_requirement | type_state_def | type_state
  | type_transition | type_attribute | type_connection | type_bind

text \<open>
  The interfaces that extend \<open>SysMLElement\<close>, one constructor each, carrying the fields the
  interface adds; an optional field (\<open>defRef?\<close>) is an \<open>option\<close>. The \<open>direction\<close> field of
  \<open>PortDef\<close> and \<open>Port\<close> is never written by the parser and is left out, as is \<open>metadata\<close>,
  which the parser always creates empty. The field \<open>text\<close> of \<open>RequirementDef\<close> is \<open>reqText\<close>.
\<close>

datatype Variant =
    Package
  | PartDef (ports: "string list") (parts: "string list")
  | Part (defRef: "string option") (multiplicity: "string option")
  | PortDef (items: "string list")
  | Port (defRef: "string option")
  | ItemDef
  | RequirementDef (reqId: "string option") (reqText: "string option")
  | StateDef (states: "string list") (transitions: "string list")
  | State (entryAction: "string option")
  | Transition (source: string) (target: string) (trigger: "string option")
  | Connection (source: string) (target: string)
  | Bind (source: string) (target: string)

record SysMLElement =
  name :: string
  elem_id :: string
  parent :: "string option"
  children :: "string list"
  variant :: Variant

text \<open>The discriminant field \<open>type\<close> of an element.\<close>

definition elementType :: "SysMLElement \<Rightarrow> ElementType" where
  "elementType e =
     (case variant e of
        Package \<Rightarrow> type_package
      | PartDef _ _ \<Rightarrow> type_part_def
      | Part _ _ \<Rightarrow> type_part
      | PortDef _ \<Rightarrow> type_port_def
      | Port _ \<Rightarrow> type_port
      | ItemDef \<Rightarrow> type_item_def
      | RequirementDef _ _ \<Rightarrow> type_requirement_def
      | StateDef _ _ \<Rightarrow> type_state_def
      | State _ \<Rightarrow> type_state
      | Transition _ _ _ \<Rightarrow> type_transition
      | Connection _ _ \<Rightarrow> type_connection
      | Bind _ _ \<Rightarrow> type_bind)"

text \<open>
  \<open>elements\<close> is a JavaScript \<open>Map\<close>: an association list in insertion order, where
  \<open>set\<close> replaces the value of a key that is present and appends a new key
  (\<open>AList.update\<close>), and \<open>get\<close> is \<open>map_of\<close>.
\<close>

record SysMLModel =
  elements :: "(string \<times> SysMLElement) list"
  rootPackage :: "string option"

section \<open>Parser (src/sysml\_visualizer/src/parser/parser.ts)\<close>

text \<open>The fields of the class \<open>SysMLParser\<close>.\<close>

record SysMLParser =
  tokens :: "Token list"
  pos :: nat
  model :: SysMLModel
  idCounter :: nat

text \<open>
  A method that can throw returns \<open>Inl\<close> of the message of the \<open>Error\<close>, or \<open>Inr\<close> of its
  result and the parser's fields after the call.
\<close>

type_synonym 'a Result = "string + 'a \<times> SysMLParser"

text \<open>Decimal rendering of a number inside a template string.\<close>

fun showNat :: "nat \<Rightarrow> string" where
  "showNat n =
     (if n < 10 then [char_of (48 + n)] else showNat (n div 10) @ [char_of (48 + n mod 10)])"

declare showNat.simps [simp del]

fun showType :: "TokenType \<Rightarrow> string" where
  "showType KEYWORD = ''KEYWORD''"
| "showType IDENTIFIER = ''IDENTIFIER''"
| "showType STRING = ''STRING''"
| "showType NUMBER = ''NUMBER''"
| "showType LBRACE = ''LBRACE''"
| "showType RBRACE = ''RBRACE''"
| "showType LBRACKET = ''LBRACKET''"
| "showType RBRACKET = ''RBRACKET''"
| "showType LPAREN = ''LPAREN''"
| "showType RPAREN = ''RPAREN''"
| "showType COLON = ''COLON''"
| "showType SEMICOLON = ''SEMICOLON''"
| "showType EQUALS = ''EQUALS''"
| "showType COMMA = ''COMMA''"
| "showType DOT = ''DOT''"
| "showType COMMENT = ''COMMENT''"
| "showType EOF = ''EOF''"

definition generateId :: "SysMLParser \<Rightarrow> string \<times> SysMLParser" where
  "generateId s = (''elem_'' @ showNat (idCounter s + 1), s\<lparr>idCounter := idCounter s + 1\<rparr>)"

definition current :: "SysMLParser \<Rightarrow> Token" where
  "current s =
     (if pos s < length (tokens s) then tokens s ! pos s
      else \<lparr>ttype = EOF, tvalue = '''', tline = 0, tcolumn = 0\<rparr>)"

definition advance :: "SysMLParser \<Rightarrow> Token \<times> SysMLParser" where
  "advance s = (current s, s\<lparr>pos := pos s + 1\<rparr>)"

definition check :: "TokenType \<Rightarrow> string option \<Rightarrow> SysMLParser \<Rightarrow> bool" where
  "check ty val s =
     (let token = current s in
      if ttype token \<noteq> ty then False
      else if val \<noteq> None \<and> Some (tvalue token) \<noteq> val then False
      else True)"

definition match :: "TokenType \<Rightarrow> string option \<Rightarrow> SysMLParser \<Rightarrow> bool \<times> SysMLParser" where
  "match ty val s = (if check ty val s then (True, snd (advance s)) else (False, s))"

text \<open>
  The message of \<open>expect\<close>, line 73; \<open>value ? ... : ''\<close> is also empty for the empty
  string.
\<close>

definition quoted :: "string \<Rightarrow> string" where
  "quoted v = [CHR 0x27] @ v @ [CHR 0x27]"

definition expectMessage :: "TokenType \<Rightarrow> string option \<Rightarrow> Token \<Rightarrow> string" where
  "expectMessage ty val token =
     ''Expected '' @ showType ty
       @ (case val of None \<Rightarrow> '''' | Some v \<Rightarrow> if v = '''' then '''' else '' '' @ quoted v)
       @ '' but got '' @ showType (ttype token) @ '' '' @ quoted (tvalue token)
       @ '' at line '' @ showNat (tline token)"

definition expect :: "TokenType \<Rightarrow> string option \<Rightarrow> SysMLParser \<Rightarrow> Token Result" where
  "expect ty val s =
     (if \<not> check ty val s then Inl (expectMessage ty val (current s)) else Inr (advance s))"

definition lookAhead :: "TokenType \<Rightarrow> string option \<Rightarrow> SysMLParser \<Rightarrow> bool" where
  "lookAhead ty val s =
     (if \<not> pos s + 1 < length (tokens s) then False
      else let nextToken = tokens s ! (pos s + 1) in
        if ttype nextToken \<noteq> ty then False
        else if val \<noteq> None \<and> Some (tvalue nextToken) \<noteq> val then False
        else True)"

text \<open>\<open>this.model.elements.set(id, element)\<close>.\<close>

definition setElement :: "string \<Rightarrow> SysMLElement \<Rightarrow> SysMLParser \<Rightarrow> SysMLParser" where
  "setElement i e s = s\<lparr>model := (model s)\<lparr>elements := AList.update i e (elements (model s))\<rparr>\<rparr>"

text \<open>The loop guard \<open>!this.check('RBRACE') && !this.check('EOF')\<close> of the body loops.\<close>

definition inBody :: "SysMLParser \<Rightarrow> bool" where
  "inBody s = (\<not> check RBRACE None s \<and> \<not> check EOF None s)"

subsection \<open>Cursor facts used by the termination proofs\<close>

text \<open>
  \<open>moved s s'\<close>: the token array is the same and the cursor did not go back;
  \<open>stepped\<close> is the strict version.
\<close>

definition moved :: "SysMLParser \<Rightarrow> SysMLParser \<Rightarrow> bool" where
  "moved s s' = (tokens s' = tokens s \<and> pos s \<le> pos s')"

definition stepped :: "SysMLParser \<Rightarrow> SysMLParser \<Rightarrow> bool" where
  "stepped s s' = (tokens s' = tokens s \<and> pos s < pos s')"

definition remaining :: "SysMLParser \<Rightarrow> nat" where
  "remaining s = length (tokens s) - pos s"

lemma moved_refl [simp]: "moved s s"
  by (simp add: moved_def)

lemma moved_trans: "moved a b \<Longrightarrow> moved b c \<Longrightarrow> moved a c"
  by (auto simp: moved_def)

lemma stepped_moved: "stepped a b \<Longrightarrow> moved a b"
  by (auto simp: moved_def stepped_def)

lemma stepped_moved_trans: "stepped a b \<Longrightarrow> moved b c \<Longrightarrow> stepped a c"
  by (auto simp: moved_def stepped_def)

lemma moved_stepped_trans: "moved a b \<Longrightarrow> stepped b c \<Longrightarrow> stepped a c"
  by (auto simp: moved_def stepped_def)

lemma stepped_advance [simp]: "stepped s (snd (advance s))"
  by (simp add: stepped_def advance_def)

lemma moved_match: "match ty val s = (b, s') \<Longrightarrow> moved s s'"
  by (auto simp: match_def moved_def advance_def split: if_splits)

lemma stepped_match: "match ty val s = (True, s') \<Longrightarrow> stepped s s'"
  by (auto simp: match_def stepped_def advance_def split: if_splits)

lemma moved_snd_match [simp]: "moved s (snd (match ty val s))"
  by (cases "match ty val s") (auto dest: moved_match)

lemma stepped_expect: "expect ty val s = Inr (t, s') \<Longrightarrow> stepped s s'"
  by (auto simp: expect_def stepped_def advance_def split: if_splits)

lemma moved_generateId: "generateId s = (i, s') \<Longrightarrow> moved s s'"
  by (auto simp: generateId_def moved_def)

lemma moved_setElement [simp]: "moved s (setElement i e s)"
  by (simp add: moved_def setElement_def)

lemma inBody_in_range: "inBody s \<Longrightarrow> pos s < length (tokens s)"
  by (auto simp: inBody_def check_def current_def split: if_splits)

lemma check_in_range: "check ty val s \<Longrightarrow> ty \<noteq> EOF \<Longrightarrow> pos s < length (tokens s)"
  by (auto simp: check_def current_def Let_def split: if_splits)

lemma stepped_remaining:
  "stepped s s' \<Longrightarrow> pos s < length (tokens s) \<Longrightarrow> remaining s' < remaining s"
  by (auto simp: stepped_def remaining_def)

lemma match_True: "match ty val s = (True, s1) \<Longrightarrow> check ty val s \<and> stepped s s1"
  by (auto simp: match_def split: if_splits)

lemma not_EOF_in_range: "\<not> check EOF None s \<Longrightarrow> pos s < length (tokens s)"
  by (auto simp: check_def current_def split: if_splits)

subsection \<open>Mutation of an element under construction\<close>

definition pushChild :: "string \<Rightarrow> SysMLElement \<Rightarrow> SysMLElement" where
  "pushChild c e = e\<lparr>children := children e @ [c]\<rparr>"

fun pushItem :: "string \<Rightarrow> Variant \<Rightarrow> Variant" where
  "pushItem x (PortDef its) = PortDef (its @ [x])"
| "pushItem x v = v"

fun pushPort :: "string \<Rightarrow> Variant \<Rightarrow> Variant" where
  "pushPort x (PartDef ps qs) = PartDef (ps @ [x]) qs"
| "pushPort x v = v"

fun pushPart :: "string \<Rightarrow> Variant \<Rightarrow> Variant" where
  "pushPart x (PartDef ps qs) = PartDef ps (qs @ [x])"
| "pushPart x v = v"

fun pushState :: "string \<Rightarrow> Variant \<Rightarrow> Variant" where
  "pushState x (StateDef ss ts) = StateDef (ss @ [x]) ts"
| "pushState x v = v"

fun pushTransition :: "string \<Rightarrow> Variant \<Rightarrow> Variant" where
  "pushTransition x (StateDef ss ts) = StateDef ss (ts @ [x])"
| "pushTransition x v = v"

fun setReqId :: "string \<Rightarrow> Variant \<Rightarrow> Variant" where
  "setReqId x (RequirementDef i t) = RequirementDef (Some x) t"
| "setReqId x v = v"

fun setReqText :: "string \<Rightarrow> Variant \<Rightarrow> Variant" where
  "setReqText x (RequirementDef i t) = RequirementDef i (Some x)"
| "setReqText x v = v"

fun setEntryAction :: "string \<Rightarrow> Variant \<Rightarrow> Variant" where
  "setEntryAction x (State a) = State (Some x)"
| "setEntryAction x v = v"

definition onVariant :: "(Variant \<Rightarrow> Variant) \<Rightarrow> SysMLElement \<Rightarrow> SysMLElement" where
  "onVariant f e = e\<lparr>variant := f (variant e)\<rparr>"

subsection \<open>parseQualifiedName (lines 546-552)\<close>

function qualifiedNameLoop :: "string \<Rightarrow> SysMLParser \<Rightarrow> string Result" where
  "qualifiedNameLoop nm s =
     (case match DOT None s of
        (True, s1) \<Rightarrow>
          (case expect IDENTIFIER None s1 of
             Inl e \<Rightarrow> Inl e
           | Inr (t, s2) \<Rightarrow> qualifiedNameLoop (nm @ ''.'' @ tvalue t) s2)
      | (False, s1) \<Rightarrow> Inr (nm, s1))"
  by pat_completeness auto
termination
proof (relation "measure (\<lambda>(nm, s). remaining s)", goal_cases)
  case 1
  show ?case by simp
next
  case (2 nm s x y b xa ya)
  then have "match DOT None s = (True, y)" and "expect IDENTIFIER None y = Inr (xa, ya)"
    by simp_all
  then have "stepped s ya" and "pos s < length (tokens s)"
    by (auto dest!: match_True stepped_expect intro: stepped_moved_trans stepped_moved
        simp: check_in_range)
  then show ?case by (simp add: stepped_remaining)
qed

declare qualifiedNameLoop.simps [simp del]

definition parseQualifiedName :: "SysMLParser \<Rightarrow> string Result" where
  "parseQualifiedName s =
     (case expect IDENTIFIER None s of
        Inl e \<Rightarrow> Inl e
      | Inr (t, s1) \<Rightarrow> qualifiedNameLoop (tvalue t) s1)"

lemma moved_qualifiedNameLoop: "qualifiedNameLoop nm s = Inr (r, s') \<Longrightarrow> moved s s'"
proof (induction nm s rule: qualifiedNameLoop.induct)
  case (1 nm s)
  show ?case
  proof (cases "match DOT None s")
    case (Pair b s1)
    show ?thesis
    proof (cases b)
      case True
      with Pair "1.prems" obtain t s2 where
        e: "expect IDENTIFIER None s1 = Inr (t, s2)"
        and r: "qualifiedNameLoop (nm @ ''.'' @ tvalue t) s2 = Inr (r, s')"
        by (subst (asm) qualifiedNameLoop.simps) (auto split: sum.splits)
      from "1.IH" [of b s1 "(t, s2)" t s2] Pair True e r have "moved s2 s'" by simp
      moreover from Pair have "moved s s1" by (rule moved_match)
      moreover from e have "moved s1 s2" by (blast intro: stepped_moved dest: stepped_expect)
      ultimately show ?thesis by (blast intro: moved_trans)
    next
      case False
      with Pair "1.prems" have "s' = s1"
        by (subst (asm) qualifiedNameLoop.simps) auto
      with Pair show ?thesis by (blast dest: moved_match)
    qed
  qed
qed

lemma stepped_parseQualifiedName: "parseQualifiedName s = Inr (r, s') \<Longrightarrow> stepped s s'"
  by (auto simp: parseQualifiedName_def split: sum.splits
      dest!: stepped_expect moved_qualifiedNameLoop intro: stepped_moved_trans)

subsection \<open>parsePort and parsePart (lines 270-325)\<close>

definition parsePort :: "string \<Rightarrow> SysMLParser \<Rightarrow> string Result" where
  "parsePort parent' s =
     (case expect KEYWORD (Some ''port'') s of Inl e \<Rightarrow> Inl e | Inr (_, s1) \<Rightarrow>
     (case expect IDENTIFIER None s1 of Inl e \<Rightarrow> Inl e | Inr (nameTok, s2) \<Rightarrow>
     (case generateId s2 of (i, s3) \<Rightarrow>
     (case (case match COLON None s3 of
              (True, s4) \<Rightarrow>
                (case expect IDENTIFIER None s4 of
                   Inl e \<Rightarrow> Inl e | Inr (t, s5) \<Rightarrow> Inr (Some (tvalue t), s5))
            | (False, s4) \<Rightarrow> Inr (None, s4)) of
        Inl e \<Rightarrow> Inl e
      | Inr (defRef', s6) \<Rightarrow>
     (case match SEMICOLON None s6 of (_, s7) \<Rightarrow>
        Inr (i, setElement i
                  \<lparr>name = tvalue nameTok, elem_id = i, parent = Some parent',
                    children = [], variant = Port defRef'\<rparr> s7))))))"

definition parsePart :: "string \<Rightarrow> SysMLParser \<Rightarrow> string Result" where
  "parsePart parent' s =
     (case expect KEYWORD (Some ''part'') s of Inl e \<Rightarrow> Inl e | Inr (_, s1) \<Rightarrow>
     (case expect IDENTIFIER None s1 of Inl e \<Rightarrow> Inl e | Inr (nameTok, s2) \<Rightarrow>
     (case generateId s2 of (i, s3) \<Rightarrow>
     (case (case match COLON None s3 of
              (True, s4) \<Rightarrow>
                (case expect IDENTIFIER None s4 of Inl e \<Rightarrow> Inl e | Inr (t, s5) \<Rightarrow>
                (case match LBRACKET None s5 of
                   (True, s6) \<Rightarrow>
                     (case expect NUMBER None s6 of Inl e \<Rightarrow> Inl e | Inr (n, s7) \<Rightarrow>
                     (case expect RBRACKET None s7 of Inl e \<Rightarrow> Inl e | Inr (_, s8) \<Rightarrow>
                        Inr ((Some (tvalue t), Some (tvalue n)), s8)))
                 | (False, s6) \<Rightarrow> Inr ((Some (tvalue t), None), s6)))
            | (False, s4) \<Rightarrow> Inr ((None, None), s4)) of
        Inl e \<Rightarrow> Inl e
      | Inr ((defRef', multiplicity'), s9) \<Rightarrow>
     (case match SEMICOLON None s9 of (_, s10) \<Rightarrow>
        Inr (i, setElement i
                  \<lparr>name = tvalue nameTok, elem_id = i, parent = Some parent',
                    children = [], variant = Part defRef' multiplicity'\<rparr> s10))))))"

lemma tokens_setElement [simp]: "tokens (setElement i e s) = tokens s"
  by (simp add: setElement_def)

lemma pos_setElement [simp]: "pos (setElement i e s) = pos s"
  by (simp add: setElement_def)

lemmas cursor_dest = stepped_expect moved_match moved_generateId

lemma stepped_parsePort: "parsePort p s = Inr (i, s') \<Longrightarrow> stepped s s'"
  unfolding parsePort_def
  by (auto split: sum.splits prod.splits bool.splits dest!: cursor_dest
      simp: stepped_def moved_def)

lemma stepped_parsePart: "parsePart p s = Inr (i, s') \<Longrightarrow> stepped s s'"
  unfolding parsePart_def
  apply (simp split: sum.splits prod.splits bool.splits)
  apply (auto dest!: cursor_dest simp: stepped_def moved_def)
  done

subsection \<open>parseItemDef (lines 146-173)\<close>

text \<open>Lines 163-165: \<open>while (!this.check('RBRACE') && !this.check('EOF')) this.advance()\<close>.\<close>

function skipBodyLoop :: "SysMLParser \<Rightarrow> SysMLParser" where
  "skipBodyLoop s = (if inBody s then skipBodyLoop (snd (advance s)) else s)"
  by pat_completeness auto
termination
  by (relation "measure remaining")
    (auto intro!: stepped_remaining simp: inBody_in_range)

declare skipBodyLoop.simps [simp del]

lemma moved_skipBodyLoop: "moved s (skipBodyLoop s)"
proof (induction s rule: skipBodyLoop.induct)
  case (1 s)
  show ?case
  proof (cases "inBody s")
    case True
    with 1 have "moved (snd (advance s)) (skipBodyLoop s)"
      by (subst skipBodyLoop.simps) simp
    then show ?thesis
      by (blast intro: moved_trans stepped_moved stepped_advance)
  next
    case False
    then show ?thesis by (subst skipBodyLoop.simps) simp
  qed
qed

definition parseItemDef :: "string \<Rightarrow> SysMLParser \<Rightarrow> string Result" where
  "parseItemDef parent' s =
     (case expect KEYWORD (Some ''item'') s of Inl e \<Rightarrow> Inl e | Inr (_, s1) \<Rightarrow>
     (case expect KEYWORD (Some ''def'') s1 of Inl e \<Rightarrow> Inl e | Inr (_, s2) \<Rightarrow>
     (case expect IDENTIFIER None s2 of Inl e \<Rightarrow> Inl e | Inr (nameTok, s3) \<Rightarrow>
     (case generateId s3 of (i, s4) \<Rightarrow>
     (case (case match LBRACE None s4 of
              (True, s5) \<Rightarrow>
                (case expect RBRACE None (skipBodyLoop s5) of
                   Inl e \<Rightarrow> Inl e | Inr (_, s6) \<Rightarrow> Inr ((), s6))
            | (False, s5) \<Rightarrow> (case match SEMICOLON None s5 of (_, s6) \<Rightarrow> Inr ((), s6))) of
        Inl e \<Rightarrow> Inl e
      | Inr (_, s7) \<Rightarrow>
          Inr (i, setElement i
                    \<lparr>name = tvalue nameTok, elem_id = i, parent = Some parent',
                      children = [], variant = ItemDef\<rparr> s7))))))"

lemma moved_skipBodyLoop_pos: "pos s \<le> pos (skipBodyLoop s)"
  using moved_skipBodyLoop [of s] by (simp add: moved_def)

lemma tokens_skipBodyLoop [simp]: "tokens (skipBodyLoop s) = tokens s"
  using moved_skipBodyLoop [of s] by (simp add: moved_def)

lemma pos_skipBodyLoop_less: "pos (skipBodyLoop s) < n \<Longrightarrow> pos s < n"
  using moved_skipBodyLoop_pos [of s] by simp

lemma stepped_parseItemDef: "parseItemDef p s = Inr (i, s') \<Longrightarrow> stepped s s'"
  unfolding parseItemDef_def
  apply (simp split: sum.splits prod.splits bool.splits)
   apply (auto dest!: cursor_dest pos_skipBodyLoop_less simp: stepped_def moved_def)
  done

subsection \<open>parsePortDef (lines 175-215)\<close>

text \<open>The body of the loop of lines 192-207, entered with the loop guard true.\<close>

definition portDefBodyStep :: "SysMLElement \<Rightarrow> SysMLParser \<Rightarrow> SysMLElement Result" where
  "portDefBodyStep portDef s =
     (if check KEYWORD (Some ''inout'') s \<or> check KEYWORD (Some ''in'') s
         \<or> check KEYWORD (Some ''out'') s then
        (case advance s of (dirTok, s1) \<Rightarrow>
        (case match KEYWORD (Some ''item'') s1 of
           (True, s2) \<Rightarrow>
             (case expect IDENTIFIER None s2 of Inl e \<Rightarrow> Inl e | Inr (itemName, s3) \<Rightarrow>
             (case (case match COLON None s3 of
                      (True, s4) \<Rightarrow>
                        (case expect IDENTIFIER None s4 of
                           Inl e \<Rightarrow> Inl e
                         | Inr (itemType, s5) \<Rightarrow>
                             Inr (onVariant
                                    (pushItem (tvalue dirTok @ '' '' @ tvalue itemName @ '': ''
                                                 @ tvalue itemType)) portDef, s5))
                    | (False, s4) \<Rightarrow> Inr (portDef, s4)) of
                Inl e \<Rightarrow> Inl e
              | Inr (portDef1, s6) \<Rightarrow>
                  (case match SEMICOLON None s6 of (_, s7) \<Rightarrow> Inr (portDef1, s7))))
         | (False, s2) \<Rightarrow> Inr (portDef, s2)))
      else Inr (portDef, snd (advance s)))"

lemma stepped_portDefBodyStep:
  "portDefBodyStep pd s = Inr (pd', s') \<Longrightarrow> stepped s s'"
  unfolding portDefBodyStep_def
  apply (simp split: sum.splits prod.splits bool.splits if_splits)
   apply (auto dest!: cursor_dest simp: stepped_def moved_def advance_def)
  done

function portDefBodyLoop :: "SysMLElement \<Rightarrow> SysMLParser \<Rightarrow> SysMLElement Result" where
  "portDefBodyLoop portDef s =
     (if inBody s then
        (case portDefBodyStep portDef s of
           Inl e \<Rightarrow> Inl e
         | Inr (portDef1, s1) \<Rightarrow> portDefBodyLoop portDef1 s1)
      else Inr (portDef, s))"
  by pat_completeness auto
termination
  by (relation "measure (\<lambda>(portDef, s). remaining s)")
    (auto intro!: stepped_remaining dest: stepped_portDefBodyStep simp: inBody_in_range)

declare portDefBodyLoop.simps [simp del]

definition parsePortDef :: "string \<Rightarrow> SysMLParser \<Rightarrow> string Result" where
  "parsePortDef parent' s =
     (case expect KEYWORD (Some ''port'') s of Inl e \<Rightarrow> Inl e | Inr (_, s1) \<Rightarrow>
     (case expect KEYWORD (Some ''def'') s1 of Inl e \<Rightarrow> Inl e | Inr (_, s2) \<Rightarrow>
     (case expect IDENTIFIER None s2 of Inl e \<Rightarrow> Inl e | Inr (nameTok, s3) \<Rightarrow>
     (case generateId s3 of (i, s4) \<Rightarrow>
     (case (case match LBRACE None s4 of
              (True, s5) \<Rightarrow>
                (case portDefBodyLoop
                        \<lparr>name = tvalue nameTok, elem_id = i, parent = Some parent',
                          children = [], variant = PortDef []\<rparr> s5 of
                   Inl e \<Rightarrow> Inl e
                 | Inr (portDef1, s6) \<Rightarrow>
                     (case expect RBRACE None s6 of
                        Inl e \<Rightarrow> Inl e | Inr (_, s7) \<Rightarrow> Inr (portDef1, s7)))
            | (False, s5) \<Rightarrow>
                (case match SEMICOLON None s5 of (_, s6) \<Rightarrow>
                   Inr (\<lparr>name = tvalue nameTok, elem_id = i, parent = Some parent',
                          children = [], variant = PortDef []\<rparr>, s6))) of
        Inl e \<Rightarrow> Inl e
      | Inr (portDef2, s8) \<Rightarrow> Inr (i, setElement i portDef2 s8))))))"

lemma portDefBodyLoop_rule:
  assumes "portDefBodyLoop x s = Inr (x', s')" and "I x s"
    and step: "\<And>x s y t. I x s \<Longrightarrow> inBody s \<Longrightarrow> portDefBodyStep x s = Inr (y, t) \<Longrightarrow> I y t"
  shows "I x' s'"
  using assms(1,2)
proof (induction x s rule: portDefBodyLoop.induct)
  case (1 x s)
  show ?case
  proof (cases "inBody s")
    case True
    with "1.prems"(1) obtain y t where st: "portDefBodyStep x s = Inr (y, t)"
      and r: "portDefBodyLoop y t = Inr (x', s')"
      by (subst (asm) portDefBodyLoop.simps) (auto split: sum.splits)
    from step [OF "1.prems"(2) True st] have "I y t" .
    with "1.IH" [of "(y, t)" y t] True st r show ?thesis by simp
  next
    case False
    with "1.prems" show ?thesis by (subst (asm) portDefBodyLoop.simps) simp
  qed
qed

lemma moved_portDefBodyLoop:
  assumes "portDefBodyLoop x s = Inr (x', s')"
  shows "moved s s'"
  by (rule portDefBodyLoop_rule [OF assms, where I = "\<lambda>x t. moved s t"])
    (auto dest!: stepped_portDefBodyStep intro: moved_trans stepped_moved)

lemma stepped_parsePortDef: "parsePortDef p s = Inr (i, s') \<Longrightarrow> stepped s s'"
  unfolding parsePortDef_def
  apply (simp split: sum.splits prod.splits bool.splits)
   apply (auto dest!: cursor_dest moved_portDefBodyLoop simp: stepped_def moved_def)
  done

subsection \<open>parseRequirementDef (lines 327-363)\<close>

text \<open>The body of the loop of lines 343-357.\<close>

definition requirementDefBodyStep :: "SysMLElement \<Rightarrow> SysMLParser \<Rightarrow> SysMLElement Result" where
  "requirementDefBodyStep req s =
     (if check KEYWORD (Some ''id'') s then
        (case advance s of (_, s1) \<Rightarrow>
        (case expect EQUALS None s1 of Inl e \<Rightarrow> Inl e | Inr (_, s2) \<Rightarrow>
        (case expect STRING None s2 of Inl e \<Rightarrow> Inl e | Inr (t, s3) \<Rightarrow>
        (case match SEMICOLON None s3 of (_, s4) \<Rightarrow>
           Inr (onVariant (setReqId (tvalue t)) req, s4)))))
      else if check KEYWORD (Some ''text'') s then
        (case advance s of (_, s1) \<Rightarrow>
        (case expect EQUALS None s1 of Inl e \<Rightarrow> Inl e | Inr (_, s2) \<Rightarrow>
        (case expect STRING None s2 of Inl e \<Rightarrow> Inl e | Inr (t, s3) \<Rightarrow>
        (case match SEMICOLON None s3 of (_, s4) \<Rightarrow>
           Inr (onVariant (setReqText (tvalue t)) req, s4)))))
      else Inr (req, snd (advance s)))"

lemma stepped_requirementDefBodyStep:
  "requirementDefBodyStep r s = Inr (r', s') \<Longrightarrow> stepped s s'"
  unfolding requirementDefBodyStep_def
  apply (simp split: sum.splits prod.splits bool.splits if_splits)
   apply (auto dest!: cursor_dest simp: stepped_def moved_def advance_def)
  done

function requirementDefBodyLoop :: "SysMLElement \<Rightarrow> SysMLParser \<Rightarrow> SysMLElement Result" where
  "requirementDefBodyLoop req s =
     (if inBody s then
        (case requirementDefBodyStep req s of
           Inl e \<Rightarrow> Inl e
         | Inr (req1, s1) \<Rightarrow> requirementDefBodyLoop req1 s1)
      else Inr (req, s))"
  by pat_completeness auto
termination
  by (relation "measure (\<lambda>(req, s). remaining s)")
    (auto intro!: stepped_remaining dest: stepped_requirementDefBodyStep simp: inBody_in_range)

declare requirementDefBodyLoop.simps [simp del]

text \<open>A requirement definition without a body consumes no semicolon (lines 342-359).\<close>

definition parseRequirementDef :: "string \<Rightarrow> SysMLParser \<Rightarrow> string Result" where
  "parseRequirementDef parent' s =
     (case expect KEYWORD (Some ''requirement'') s of Inl e \<Rightarrow> Inl e | Inr (_, s1) \<Rightarrow>
     (case expect KEYWORD (Some ''def'') s1 of Inl e \<Rightarrow> Inl e | Inr (_, s2) \<Rightarrow>
     (case expect IDENTIFIER None s2 of Inl e \<Rightarrow> Inl e | Inr (nameTok, s3) \<Rightarrow>
     (case generateId s3 of (i, s4) \<Rightarrow>
     (case (case match LBRACE None s4 of
              (True, s5) \<Rightarrow>
                (case requirementDefBodyLoop
                        \<lparr>name = tvalue nameTok, elem_id = i, parent = Some parent',
                          children = [], variant = RequirementDef None None\<rparr> s5 of
                   Inl e \<Rightarrow> Inl e
                 | Inr (req1, s6) \<Rightarrow>
                     (case expect RBRACE None s6 of
                        Inl e \<Rightarrow> Inl e | Inr (_, s7) \<Rightarrow> Inr (req1, s7)))
            | (False, s5) \<Rightarrow>
                Inr (\<lparr>name = tvalue nameTok, elem_id = i, parent = Some parent',
                       children = [], variant = RequirementDef None None\<rparr>, s5)) of
        Inl e \<Rightarrow> Inl e
      | Inr (req2, s8) \<Rightarrow> Inr (i, setElement i req2 s8))))))"

lemma requirementDefBodyLoop_rule:
  assumes "requirementDefBodyLoop x s = Inr (x', s')" and "I x s"
    and step: "\<And>x s y t. I x s \<Longrightarrow> inBody s \<Longrightarrow> requirementDefBodyStep x s = Inr (y, t)
      \<Longrightarrow> I y t"
  shows "I x' s'"
  using assms(1,2)
proof (induction x s rule: requirementDefBodyLoop.induct)
  case (1 x s)
  show ?case
  proof (cases "inBody s")
    case True
    with "1.prems"(1) obtain y t where st: "requirementDefBodyStep x s = Inr (y, t)"
      and r: "requirementDefBodyLoop y t = Inr (x', s')"
      by (subst (asm) requirementDefBodyLoop.simps) (auto split: sum.splits)
    from step [OF "1.prems"(2) True st] have "I y t" .
    with "1.IH" [of "(y, t)" y t] True st r show ?thesis by simp
  next
    case False
    with "1.prems" show ?thesis by (subst (asm) requirementDefBodyLoop.simps) simp
  qed
qed

lemma moved_requirementDefBodyLoop:
  assumes "requirementDefBodyLoop x s = Inr (x', s')"
  shows "moved s s'"
  by (rule requirementDefBodyLoop_rule [OF assms, where I = "\<lambda>x t. moved s t"])
    (auto dest!: stepped_requirementDefBodyStep intro: moved_trans stepped_moved)

lemma stepped_parseRequirementDef: "parseRequirementDef p s = Inr (i, s') \<Longrightarrow> stepped s s'"
  unfolding parseRequirementDef_def
  apply (simp split: sum.splits prod.splits bool.splits)
   apply (auto dest!: cursor_dest moved_requirementDefBodyLoop simp: stepped_def moved_def)
  done

subsection \<open>parseTransition (lines 451-487)\<close>

text \<open>
  The local variables \<open>source\<close>, \<open>target\<close> and \<open>trigger\<close> of \<open>parseTransition\<close>, and the
  body of the loop of lines 460-470.
\<close>

type_synonym TransitionVars = "string \<times> string \<times> string option"

definition transitionStep :: "TransitionVars \<Rightarrow> SysMLParser \<Rightarrow> TransitionVars Result" where
  "transitionStep vars s =
     (case vars of (source', target', trigger') \<Rightarrow>
     (case match KEYWORD (Some ''first'') s of
        (True, s1) \<Rightarrow>
          (case expect IDENTIFIER None s1 of
             Inl e \<Rightarrow> Inl e | Inr (t, s2) \<Rightarrow> Inr ((tvalue t, target', trigger'), s2))
      | (False, s1) \<Rightarrow>
     (case match KEYWORD (Some ''accept'') s1 of
        (True, s2) \<Rightarrow>
          (case expect IDENTIFIER None s2 of
             Inl e \<Rightarrow> Inl e | Inr (t, s3) \<Rightarrow> Inr ((source', target', Some (tvalue t)), s3))
      | (False, s2) \<Rightarrow>
     (case match KEYWORD (Some ''then'') s2 of
        (True, s3) \<Rightarrow>
          (case expect IDENTIFIER None s3 of
             Inl e \<Rightarrow> Inl e | Inr (t, s4) \<Rightarrow> Inr ((source', tvalue t, trigger'), s4))
      | (False, s3) \<Rightarrow> Inr (vars, snd (advance s3))))))"

definition inStatement :: "SysMLParser \<Rightarrow> bool" where
  "inStatement s = (\<not> check SEMICOLON None s \<and> \<not> check RBRACE None s \<and> \<not> check EOF None s)"

lemma inStatement_in_range: "inStatement s \<Longrightarrow> pos s < length (tokens s)"
  by (simp add: inStatement_def not_EOF_in_range)

lemma stepped_transitionStep: "transitionStep v s = Inr (v', s') \<Longrightarrow> stepped s s'"
  unfolding transitionStep_def
  apply (simp split: sum.splits prod.splits bool.splits)
  apply (auto dest!: cursor_dest simp: stepped_def moved_def advance_def)
  done

function transitionLoop :: "TransitionVars \<Rightarrow> SysMLParser \<Rightarrow> TransitionVars Result" where
  "transitionLoop vars s =
     (if inStatement s then
        (case transitionStep vars s of
           Inl e \<Rightarrow> Inl e
         | Inr (vars1, s1) \<Rightarrow> transitionLoop vars1 s1)
      else Inr (vars, s))"
  by pat_completeness auto
termination
  by (relation "measure (\<lambda>(vars, s). remaining s)")
    (auto intro!: stepped_remaining dest: stepped_transitionStep simp: inStatement_in_range)

declare transitionLoop.simps [simp del]

definition parseTransition :: "string \<Rightarrow> SysMLParser \<Rightarrow> string Result" where
  "parseTransition parent' s =
     (case expect KEYWORD (Some ''transition'') s of Inl e \<Rightarrow> Inl e | Inr (_, s1) \<Rightarrow>
     (case expect IDENTIFIER None s1 of Inl e \<Rightarrow> Inl e | Inr (nameTok, s2) \<Rightarrow>
     (case generateId s2 of (i, s3) \<Rightarrow>
     (case transitionLoop ('''', '''', None) s3 of
        Inl e \<Rightarrow> Inl e
      | Inr ((source', target', trigger'), s4) \<Rightarrow>
     (case match SEMICOLON None s4 of (_, s5) \<Rightarrow>
        Inr (i, setElement i
                  \<lparr>name = tvalue nameTok, elem_id = i, parent = Some parent',
                    children = [], variant = Transition source' target' trigger'\<rparr> s5))))))"

lemma transitionLoop_rule:
  assumes "transitionLoop x s = Inr (x', s')" and "I x s"
    and step: "\<And>x s y t. I x s \<Longrightarrow> inStatement s \<Longrightarrow> transitionStep x s = Inr (y, t)
      \<Longrightarrow> I y t"
  shows "I x' s'"
  using assms(1,2)
proof (induction x s rule: transitionLoop.induct)
  case (1 x s)
  show ?case
  proof (cases "inStatement s")
    case True
    with "1.prems"(1) obtain y t where st: "transitionStep x s = Inr (y, t)"
      and r: "transitionLoop y t = Inr (x', s')"
      by (subst (asm) transitionLoop.simps) (auto split: sum.splits)
    from step [OF "1.prems"(2) True st] have "I y t" .
    with "1.IH" [of "(y, t)" y t] True st r show ?thesis by simp
  next
    case False
    with "1.prems" show ?thesis by (subst (asm) transitionLoop.simps) simp
  qed
qed

lemma moved_transitionLoop:
  assumes "transitionLoop x s = Inr (x', s')"
  shows "moved s s'"
  by (rule transitionLoop_rule [OF assms, where I = "\<lambda>x t. moved s t"])
    (auto dest!: stepped_transitionStep intro: moved_trans stepped_moved)

lemma stepped_parseTransition: "parseTransition p s = Inr (i, s') \<Longrightarrow> stepped s s'"
  unfolding parseTransition_def
  apply (simp split: sum.splits prod.splits bool.splits)
  apply (auto dest!: cursor_dest moved_transitionLoop simp: stepped_def moved_def)
  done

subsection \<open>parseConnection and parseBind (lines 489-544)\<close>

text \<open>Lines 493-495: skipping an \<open>interface\<close> statement that is not a \<open>connect\<close>.\<close>

function skipStatementLoop :: "SysMLParser \<Rightarrow> SysMLParser" where
  "skipStatementLoop s = (if inStatement s then skipStatementLoop (snd (advance s)) else s)"
  by pat_completeness auto
termination
  by (relation "measure remaining")
    (auto intro!: stepped_remaining simp: inStatement_in_range)

declare skipStatementLoop.simps [simp del]

lemma moved_skipStatementLoop: "moved s (skipStatementLoop s)"
proof (induction s rule: skipStatementLoop.induct)
  case (1 s)
  show ?case
  proof (cases "inStatement s")
    case True
    with 1 have "moved (snd (advance s)) (skipStatementLoop s)"
      by (subst skipStatementLoop.simps) simp
    then show ?thesis
      by (blast intro: moved_trans stepped_moved stepped_advance)
  next
    case False
    then show ?thesis by (subst skipStatementLoop.simps) simp
  qed
qed

lemma tokens_skipStatementLoop [simp]: "tokens (skipStatementLoop s) = tokens s"
  using moved_skipStatementLoop [of s] by (simp add: moved_def)

lemma pos_skipStatementLoop: "pos s \<le> pos (skipStatementLoop s)"
  using moved_skipStatementLoop [of s] by (simp add: moved_def)

lemma pos_skipStatementLoop_le: "pos (skipStatementLoop s) \<le> n \<Longrightarrow> pos s \<le> n"
  using pos_skipStatementLoop [of s] by simp

text \<open>
  \<open>parseConnection\<close> returns \<open>null\<close> (\<open>None\<close>) for a skipped statement. The name of a
  connection is \<open>source->target\<close>, that of a bind \<open>source=target\<close>.
\<close>

definition parseConnection :: "string \<Rightarrow> SysMLParser \<Rightarrow> string option Result" where
  "parseConnection parent' s =
     (case expect KEYWORD (Some ''interface'') s of Inl e \<Rightarrow> Inl e | Inr (_, s1) \<Rightarrow>
     (case match KEYWORD (Some ''connect'') s1 of
        (False, s2) \<Rightarrow>
          (case match SEMICOLON None (skipStatementLoop s2) of (_, s3) \<Rightarrow> Inr (None, s3))
      | (True, s2) \<Rightarrow>
     (case expect LPAREN None s2 of Inl e \<Rightarrow> Inl e | Inr (_, s3) \<Rightarrow>
     (case parseQualifiedName s3 of Inl e \<Rightarrow> Inl e | Inr (source', s4) \<Rightarrow>
     (case expect COMMA None s4 of Inl e \<Rightarrow> Inl e | Inr (_, s5) \<Rightarrow>
     (case parseQualifiedName s5 of Inl e \<Rightarrow> Inl e | Inr (target', s6) \<Rightarrow>
     (case expect RPAREN None s6 of Inl e \<Rightarrow> Inl e | Inr (_, s7) \<Rightarrow>
     (case match SEMICOLON None s7 of (_, s8) \<Rightarrow>
     (case generateId s8 of (i, s9) \<Rightarrow>
        Inr (Some i, setElement i
                  \<lparr>name = source' @ ''->'' @ target', elem_id = i, parent = Some parent',
                    children = [], variant = Connection source' target'\<rparr> s9))))))))))"

definition parseBind :: "string \<Rightarrow> SysMLParser \<Rightarrow> string Result" where
  "parseBind parent' s =
     (case expect KEYWORD (Some ''bind'') s of Inl e \<Rightarrow> Inl e | Inr (_, s1) \<Rightarrow>
     (case parseQualifiedName s1 of Inl e \<Rightarrow> Inl e | Inr (source', s2) \<Rightarrow>
     (case expect EQUALS None s2 of Inl e \<Rightarrow> Inl e | Inr (_, s3) \<Rightarrow>
     (case parseQualifiedName s3 of Inl e \<Rightarrow> Inl e | Inr (target', s4) \<Rightarrow>
     (case match SEMICOLON None s4 of (_, s5) \<Rightarrow>
     (case generateId s5 of (i, s6) \<Rightarrow>
        Inr (i, setElement i
                  \<lparr>name = source' @ ''='' @ target', elem_id = i, parent = Some parent',
                    children = [], variant = Bind source' target'\<rparr> s6)))))))"

lemma stepped_parseConnection: "parseConnection p s = Inr (i, s') \<Longrightarrow> stepped s s'"
  unfolding parseConnection_def
  apply (simp split: sum.splits prod.splits bool.splits)
   apply (auto dest!: cursor_dest stepped_parseQualifiedName pos_skipStatementLoop_le
      simp: stepped_def moved_def)
  done

lemma stepped_parseBind: "parseBind p s = Inr (i, s') \<Longrightarrow> stepped s s'"
  unfolding parseBind_def
  apply (simp split: sum.splits prod.splits bool.splits)
  apply (auto dest!: cursor_dest stepped_parseQualifiedName simp: stepped_def moved_def)
  done

subsection \<open>parseState (lines 415-449)\<close>

text \<open>
  A method whose loops may run forever returns an \<open>Outcome\<close>: \<open>None\<close> when the call does
  not return, \<open>Some\<close> of the result otherwise.
\<close>

type_synonym 'a Outcome = "'a Result option"

text \<open>Line 436: \<open>while (!this.check('RBRACE')) this.advance()\<close>, with no test for \<open>EOF\<close>.\<close>

partial_function (option) actionBodyLoop :: "SysMLParser \<Rightarrow> SysMLParser option" where
  "actionBodyLoop s =
     (if \<not> check RBRACE None s then actionBodyLoop (snd (advance s)) else Some s)"

declare actionBodyLoop.simps [code]

lemma actionBodyLoop_Some:
  "actionBodyLoop s = Some s' \<Longrightarrow> moved s s' \<and> check RBRACE None s'"
proof (induction rule: actionBodyLoop.raw_induct [rotated 1, consumes 1])
  case (1 loop s s')
  show ?case
  proof (cases "check RBRACE None s")
    case True
    with 1(2) show ?thesis by simp
  next
    case False
    with 1(2) have "loop (snd (advance s)) = Some s'" by simp
    from 1(1) [OF this] show ?thesis
      by (blast intro: moved_trans stepped_moved stepped_advance)
  qed
qed

text \<open>The body of the loop of lines 430-443.\<close>

definition stateBodyStep :: "SysMLElement \<Rightarrow> SysMLParser \<Rightarrow> SysMLElement Outcome" where
  "stateBodyStep state' s =
     (if check KEYWORD (Some ''entry'') s then
        (case advance s of (_, s1) \<Rightarrow>
        (case match KEYWORD (Some ''action'') s1 of
           (True, s2) \<Rightarrow>
             (case expect IDENTIFIER None s2 of
                Inl e \<Rightarrow> Some (Inl e)
              | Inr (t, s3) \<Rightarrow>
             (case match LBRACE None s3 of
                (True, s4) \<Rightarrow>
                  (case actionBodyLoop s4 of
                     None \<Rightarrow> None
                   | Some s5 \<Rightarrow>
                  (case expect RBRACE None s5 of
                     Inl e \<Rightarrow> Some (Inl e)
                   | Inr (_, s6) \<Rightarrow>
                       Some (Inr (onVariant (setEntryAction (tvalue t)) state', s6))))
              | (False, s4) \<Rightarrow>
                  Some (Inr (onVariant (setEntryAction (tvalue t)) state', s4))))
         | (False, s2) \<Rightarrow> Some (Inr (state', s2))))
      else Some (Inr (state', snd (advance s))))"

lemma stepped_stateBodyStep:
  "stateBodyStep st s = Some (Inr (st', s')) \<Longrightarrow> stepped s s'"
  unfolding stateBodyStep_def
  apply (simp split: sum.splits prod.splits bool.splits if_splits option.splits)
   apply (auto dest!: cursor_dest actionBodyLoop_Some simp: stepped_def moved_def advance_def)
  done

function stateBodyLoop :: "SysMLElement \<Rightarrow> SysMLParser \<Rightarrow> SysMLElement Outcome" where
  "stateBodyLoop state' s =
     (if inBody s then
        (case stateBodyStep state' s of
           None \<Rightarrow> None
         | Some r \<Rightarrow>
        (case r of
           Inl e \<Rightarrow> Some (Inl e)
         | Inr (state1, s1) \<Rightarrow> stateBodyLoop state1 s1))
      else Some (Inr (state', s)))"
  by pat_completeness auto
termination
  by (relation "measure (\<lambda>(state', s). remaining s)")
    (auto intro!: stepped_remaining dest: stepped_stateBodyStep simp: inBody_in_range)

declare stateBodyLoop.simps [simp del]

definition parseState :: "string \<Rightarrow> SysMLParser \<Rightarrow> string Outcome" where
  "parseState parent' s =
     (case expect KEYWORD (Some ''state'') s of Inl e \<Rightarrow> Some (Inl e) | Inr (_, s1) \<Rightarrow>
     (case expect IDENTIFIER None s1 of Inl e \<Rightarrow> Some (Inl e) | Inr (nameTok, s2) \<Rightarrow>
     (case generateId s2 of (i, s3) \<Rightarrow>
     (case (case match LBRACE None s3 of
              (True, s4) \<Rightarrow>
                (case stateBodyLoop
                        \<lparr>name = tvalue nameTok, elem_id = i, parent = Some parent',
                          children = [], variant = State None\<rparr> s4 of
                   None \<Rightarrow> None
                 | Some r \<Rightarrow>
                (case r of
                   Inl e \<Rightarrow> Some (Inl e)
                 | Inr (state1, s5) \<Rightarrow>
                (case expect RBRACE None s5 of
                   Inl e \<Rightarrow> Some (Inl e)
                 | Inr (_, s6) \<Rightarrow> Some (Inr (state1, s6)))))
            | (False, s4) \<Rightarrow>
                Some (Inr (\<lparr>name = tvalue nameTok, elem_id = i, parent = Some parent',
                             children = [], variant = State None\<rparr>, s4))) of
        None \<Rightarrow> None
      | Some r \<Rightarrow>
     (case r of
        Inl e \<Rightarrow> Some (Inl e)
      | Inr (state2, s7) \<Rightarrow> Some (Inr (i, setElement i state2 s7)))))))"

lemma stateBodyLoop_rule:
  assumes "stateBodyLoop x s = Some (Inr (x', s'))" and "I x s"
    and step: "\<And>x s y t. I x s \<Longrightarrow> inBody s \<Longrightarrow> stateBodyStep x s = Some (Inr (y, t))
      \<Longrightarrow> I y t"
  shows "I x' s'"
  using assms(1,2)
proof (induction x s rule: stateBodyLoop.induct)
  case (1 x s)
  show ?case
  proof (cases "inBody s")
    case True
    with "1.prems"(1) obtain y t where st: "stateBodyStep x s = Some (Inr (y, t))"
      and r: "stateBodyLoop y t = Some (Inr (x', s'))"
      by (subst (asm) stateBodyLoop.simps) (auto split: sum.splits option.splits)
    from step [OF "1.prems"(2) True st] have "I y t" .
    with "1.IH" [of "Inr (y, t)" "(y, t)" y t] True st r show ?thesis by simp
  next
    case False
    with "1.prems" show ?thesis by (subst (asm) stateBodyLoop.simps) simp
  qed
qed

lemma moved_stateBodyLoop:
  assumes "stateBodyLoop x s = Some (Inr (x', s'))"
  shows "moved s s'"
  by (rule stateBodyLoop_rule [OF assms, where I = "\<lambda>x t. moved s t"])
    (auto dest!: stepped_stateBodyStep intro: moved_trans stepped_moved)

lemma stepped_parseState: "parseState p s = Some (Inr (i, s')) \<Longrightarrow> stepped s s'"
  unfolding parseState_def
  apply (simp split: sum.splits prod.splits bool.splits option.splits)
   apply (auto dest!: cursor_dest moved_stateBodyLoop simp: stepped_def moved_def)
  done

subsection \<open>parseStateDef and parseStateDefBody (lines 365-413)\<close>

text \<open>The body of the loop of \<open>parseStateDefBody\<close>, lines 393-411.\<close>

definition stateDefBodyStep ::
  "string \<Rightarrow> SysMLElement \<Rightarrow> SysMLParser \<Rightarrow> SysMLElement Outcome" where
  "stateDefBodyStep parentId stateDef s =
     (if check KEYWORD (Some ''state'') s then
        (case parseState parentId s of
           None \<Rightarrow> None
         | Some r \<Rightarrow>
        (case r of
           Inl e \<Rightarrow> Some (Inl e)
         | Inr (stateId, s1) \<Rightarrow>
             Some (Inr (pushChild stateId (onVariant (pushState stateId) stateDef), s1))))
      else if check KEYWORD (Some ''transition'') s then
        (case parseTransition parentId s of
           Inl e \<Rightarrow> Some (Inl e)
         | Inr (transId, s1) \<Rightarrow>
             Some (Inr (pushChild transId (onVariant (pushTransition transId) stateDef), s1)))
      else if check KEYWORD (Some ''entry'') s then
        (case advance s of (_, s1) \<Rightarrow>
        (case match SEMICOLON None s1 of (_, s2) \<Rightarrow>
        (case match KEYWORD (Some ''then'') s2 of
           (True, s3) \<Rightarrow>
             (case expect IDENTIFIER None s3 of
                Inl e \<Rightarrow> Some (Inl e)
              | Inr (_, s4) \<Rightarrow>
             (case match SEMICOLON None s4 of (_, s5) \<Rightarrow> Some (Inr (stateDef, s5))))
         | (False, s3) \<Rightarrow> Some (Inr (stateDef, s3)))))
      else Some (Inr (stateDef, snd (advance s))))"

lemma stepped_stateDefBodyStep:
  "stateDefBodyStep p sd s = Some (Inr (sd', s')) \<Longrightarrow> stepped s s'"
  unfolding stateDefBodyStep_def
  apply (simp split: sum.splits prod.splits bool.splits if_splits option.splits)
     apply (auto dest!: cursor_dest stepped_parseState stepped_parseTransition
      simp: stepped_def moved_def advance_def)
  done

function parseStateDefBody ::
  "string \<Rightarrow> SysMLElement \<Rightarrow> SysMLParser \<Rightarrow> SysMLElement Outcome" where
  "parseStateDefBody parentId stateDef s =
     (if inBody s then
        (case stateDefBodyStep parentId stateDef s of
           None \<Rightarrow> None
         | Some r \<Rightarrow>
        (case r of
           Inl e \<Rightarrow> Some (Inl e)
         | Inr (stateDef1, s1) \<Rightarrow> parseStateDefBody parentId stateDef1 s1))
      else Some (Inr (stateDef, s)))"
  by pat_completeness auto
termination
  by (relation "measure (\<lambda>(parentId, stateDef, s). remaining s)")
    (auto intro!: stepped_remaining dest: stepped_stateDefBodyStep simp: inBody_in_range)

declare parseStateDefBody.simps [simp del]

text \<open>A state definition without a body consumes no semicolon (lines 382-385).\<close>

definition parseStateDef :: "string \<Rightarrow> SysMLParser \<Rightarrow> string Outcome" where
  "parseStateDef parent' s =
     (case expect KEYWORD (Some ''state'') s of Inl e \<Rightarrow> Some (Inl e) | Inr (_, s1) \<Rightarrow>
     (case expect KEYWORD (Some ''def'') s1 of Inl e \<Rightarrow> Some (Inl e) | Inr (_, s2) \<Rightarrow>
     (case expect IDENTIFIER None s2 of Inl e \<Rightarrow> Some (Inl e) | Inr (nameTok, s3) \<Rightarrow>
     (case generateId s3 of (i, s4) \<Rightarrow>
     (case (case match LBRACE None s4 of
              (True, s5) \<Rightarrow>
                (case parseStateDefBody i
                        \<lparr>name = tvalue nameTok, elem_id = i, parent = Some parent',
                          children = [], variant = StateDef [] []\<rparr> s5 of
                   None \<Rightarrow> None
                 | Some r \<Rightarrow>
                (case r of
                   Inl e \<Rightarrow> Some (Inl e)
                 | Inr (stateDef1, s6) \<Rightarrow>
                (case expect RBRACE None s6 of
                   Inl e \<Rightarrow> Some (Inl e)
                 | Inr (_, s7) \<Rightarrow> Some (Inr (stateDef1, s7)))))
            | (False, s5) \<Rightarrow>
                Some (Inr (\<lparr>name = tvalue nameTok, elem_id = i, parent = Some parent',
                             children = [], variant = StateDef [] []\<rparr>, s5))) of
        None \<Rightarrow> None
      | Some r \<Rightarrow>
     (case r of
        Inl e \<Rightarrow> Some (Inl e)
      | Inr (stateDef2, s8) \<Rightarrow> Some (Inr (i, setElement i stateDef2 s8))))))))"

lemma parseStateDefBody_rule:
  assumes "parseStateDefBody p x s = Some (Inr (x', s'))" and "I x s"
    and "\<And>x s y t. I x s \<Longrightarrow> inBody s \<Longrightarrow> stateDefBodyStep p x s = Some (Inr (y, t))
      \<Longrightarrow> I y t"
  shows "I x' s'"
  using assms
proof (induction p x s rule: parseStateDefBody.induct)
  case (1 p x s)
  note step = "1.prems"(3)
  show ?case
  proof (cases "inBody s")
    case True
    with "1.prems"(1) obtain y t where st: "stateDefBodyStep p x s = Some (Inr (y, t))"
      and r: "parseStateDefBody p y t = Some (Inr (x', s'))"
      by (subst (asm) parseStateDefBody.simps) (auto split: sum.splits option.splits)
    from step [OF "1.prems"(2) True st] have "I y t" .
    with "1.IH" [of "Inr (y, t)" "(y, t)" y t] True st r step show ?thesis by simp
  next
    case False
    with "1.prems" show ?thesis by (subst (asm) parseStateDefBody.simps) simp
  qed
qed

lemma moved_parseStateDefBody:
  assumes "parseStateDefBody p x s = Some (Inr (x', s'))"
  shows "moved s s'"
  by (rule parseStateDefBody_rule [OF assms, where I = "\<lambda>x t. moved s t"])
    (auto dest!: stepped_stateDefBodyStep intro: moved_trans stepped_moved)

lemma stepped_parseStateDef: "parseStateDef p s = Some (Inr (i, s')) \<Longrightarrow> stepped s s'"
  unfolding parseStateDef_def
  apply (simp split: sum.splits prod.splits bool.splits option.splits)
   apply (auto dest!: cursor_dest moved_parseStateDefBody simp: stepped_def moved_def)
  done

subsection \<open>parsePartDef and parsePartDefBody (lines 217-268)\<close>

text \<open>The body of the loop of \<open>parsePartDefBody\<close>, lines 247-266.\<close>

definition partDefBodyStep ::
  "string \<Rightarrow> SysMLElement \<Rightarrow> SysMLParser \<Rightarrow> SysMLElement Outcome" where
  "partDefBodyStep parentId partDef s =
     (if check KEYWORD (Some ''port'') s then
        (case parsePort parentId s of
           Inl e \<Rightarrow> Some (Inl e)
         | Inr (portId, s1) \<Rightarrow>
             Some (Inr (pushChild portId (onVariant (pushPort portId) partDef), s1)))
      else if check KEYWORD (Some ''part'') s then
        (case parsePart parentId s of
           Inl e \<Rightarrow> Some (Inl e)
         | Inr (childPartId, s1) \<Rightarrow>
             Some (Inr (pushChild childPartId (onVariant (pushPart childPartId) partDef), s1)))
      else if check KEYWORD (Some ''state'') s \<and> lookAhead KEYWORD (Some ''def'') s then
        (case parseStateDef parentId s of
           None \<Rightarrow> None
         | Some r \<Rightarrow>
        (case r of
           Inl e \<Rightarrow> Some (Inl e)
         | Inr (stateDefId, s1) \<Rightarrow> Some (Inr (pushChild stateDefId partDef, s1))))
      else if check KEYWORD (Some ''interface'') s then
        (case parseConnection parentId s of
           Inl e \<Rightarrow> Some (Inl e)
         | Inr (connId, s1) \<Rightarrow>
             Some (Inr (case connId of None \<Rightarrow> partDef | Some c \<Rightarrow> pushChild c partDef, s1)))
      else if check KEYWORD (Some ''bind'') s then
        (case parseBind parentId s of
           Inl e \<Rightarrow> Some (Inl e)
         | Inr (bindId, s1) \<Rightarrow> Some (Inr (pushChild bindId partDef, s1)))
      else Some (Inr (partDef, snd (advance s))))"

lemma partDefBodyStep_cases:
  assumes "partDefBodyStep p pd s = Some (Inr (pd', s'))"
  obtains
    (port) i where "parsePort p s = Inr (i, s')"
      and "pd' = pushChild i (onVariant (pushPort i) pd)"
  | (part) i where "parsePart p s = Inr (i, s')"
      and "pd' = pushChild i (onVariant (pushPart i) pd)"
  | (stateDef) i where "parseStateDef p s = Some (Inr (i, s'))" and "pd' = pushChild i pd"
  | (skipped) "parseConnection p s = Inr (None, s')" and "pd' = pd"
  | (connection) i where "parseConnection p s = Inr (Some i, s')" and "pd' = pushChild i pd"
  | (bind) i where "parseBind p s = Inr (i, s')" and "pd' = pushChild i pd"
  | (other) "s' = snd (advance s)" and "pd' = pd"
  using assms unfolding partDefBodyStep_def
  apply (simp split: if_splits)
       apply (auto split: sum.splits option.splits)
  done

lemma stepped_partDefBodyStep:
  assumes "partDefBodyStep p pd s = Some (Inr (pd', s'))"
  shows "stepped s s'"
  using assms
  by (cases rule: partDefBodyStep_cases)
    (auto dest: stepped_parsePort stepped_parsePart stepped_parseStateDef
      stepped_parseConnection stepped_parseBind)

function parsePartDefBody ::
  "string \<Rightarrow> SysMLElement \<Rightarrow> SysMLParser \<Rightarrow> SysMLElement Outcome" where
  "parsePartDefBody parentId partDef s =
     (if inBody s then
        (case partDefBodyStep parentId partDef s of
           None \<Rightarrow> None
         | Some r \<Rightarrow>
        (case r of
           Inl e \<Rightarrow> Some (Inl e)
         | Inr (partDef1, s1) \<Rightarrow> parsePartDefBody parentId partDef1 s1))
      else Some (Inr (partDef, s)))"
  by pat_completeness auto
termination
  by (relation "measure (\<lambda>(parentId, partDef, s). remaining s)")
    (auto intro!: stepped_remaining dest: stepped_partDefBodyStep simp: inBody_in_range)

declare parsePartDefBody.simps [simp del]

definition parsePartDef :: "string \<Rightarrow> SysMLParser \<Rightarrow> string Outcome" where
  "parsePartDef parent' s =
     (case expect KEYWORD (Some ''part'') s of Inl e \<Rightarrow> Some (Inl e) | Inr (_, s1) \<Rightarrow>
     (case expect KEYWORD (Some ''def'') s1 of Inl e \<Rightarrow> Some (Inl e) | Inr (_, s2) \<Rightarrow>
     (case expect IDENTIFIER None s2 of Inl e \<Rightarrow> Some (Inl e) | Inr (nameTok, s3) \<Rightarrow>
     (case generateId s3 of (i, s4) \<Rightarrow>
     (case (case match LBRACE None s4 of
              (True, s5) \<Rightarrow>
                (case parsePartDefBody i
                        \<lparr>name = tvalue nameTok, elem_id = i, parent = Some parent',
                          children = [], variant = PartDef [] []\<rparr> s5 of
                   None \<Rightarrow> None
                 | Some r \<Rightarrow>
                (case r of
                   Inl e \<Rightarrow> Some (Inl e)
                 | Inr (partDef1, s6) \<Rightarrow>
                (case expect RBRACE None s6 of
                   Inl e \<Rightarrow> Some (Inl e)
                 | Inr (_, s7) \<Rightarrow> Some (Inr (partDef1, s7)))))
            | (False, s5) \<Rightarrow>
                (case match SEMICOLON None s5 of (_, s6) \<Rightarrow>
                   Some (Inr (\<lparr>name = tvalue nameTok, elem_id = i, parent = Some parent',
                                children = [], variant = PartDef [] []\<rparr>, s6)))) of
        None \<Rightarrow> None
      | Some r \<Rightarrow>
     (case r of
        Inl e \<Rightarrow> Some (Inl e)
      | Inr (partDef2, s8) \<Rightarrow> Some (Inr (i, setElement i partDef2 s8))))))))"

lemma parsePartDefBody_rule:
  assumes "parsePartDefBody p x s = Some (Inr (x', s'))" and "I x s"
    and "\<And>x s y t. I x s \<Longrightarrow> inBody s \<Longrightarrow> partDefBodyStep p x s = Some (Inr (y, t))
      \<Longrightarrow> I y t"
  shows "I x' s'"
  using assms
proof (induction p x s rule: parsePartDefBody.induct)
  case (1 p x s)
  note step = "1.prems"(3)
  show ?case
  proof (cases "inBody s")
    case True
    with "1.prems"(1) obtain y t where st: "partDefBodyStep p x s = Some (Inr (y, t))"
      and r: "parsePartDefBody p y t = Some (Inr (x', s'))"
      by (subst (asm) parsePartDefBody.simps) (auto split: sum.splits option.splits)
    from step [OF "1.prems"(2) True st] have "I y t" .
    with "1.IH" [of "Inr (y, t)" "(y, t)" y t] True st r step show ?thesis by simp
  next
    case False
    with "1.prems" show ?thesis by (subst (asm) parsePartDefBody.simps) simp
  qed
qed

lemma moved_parsePartDefBody:
  assumes "parsePartDefBody p x s = Some (Inr (x', s'))"
  shows "moved s s'"
  by (rule parsePartDefBody_rule [OF assms, where I = "\<lambda>x t. moved s t"])
    (auto dest!: stepped_partDefBodyStep intro: moved_trans stepped_moved)

lemma stepped_parsePartDef: "parsePartDef p s = Some (Inr (i, s')) \<Longrightarrow> stepped s s'"
  unfolding parsePartDef_def
  apply (simp split: sum.splits prod.splits bool.splits option.splits)
   apply (auto dest!: cursor_dest moved_parsePartDefBody simp: stepped_def moved_def)
  done

subsection \<open>parsePackage and parsePackageBody (lines 79-136)\<close>

text \<open>
  \<open>parsePackageBody\<close> reads the package object out of the map once (line 104) and pushes
  every child id onto that object's \<open>children\<close>. Ids are never reused, so the map holds that
  same object under \<open>parentId\<close> for the whole loop, and the push is an update of the entry
  of \<open>parentId\<close>.
\<close>

definition pushChildOf :: "string \<Rightarrow> string \<Rightarrow> SysMLParser \<Rightarrow> SysMLParser" where
  "pushChildOf parentId c s =
     s\<lparr>model := (model s)\<lparr>elements :=
          AList.map_entry parentId (pushChild c) (elements (model s))\<rparr>\<rparr>"

text \<open>The body of the loop of \<open>parsePackageBody\<close>, lines 107-134.\<close>

definition packageBodyStep :: "string \<Rightarrow> SysMLParser \<Rightarrow> unit Outcome" where
  "packageBodyStep parentId s =
     (if check KEYWORD (Some ''item'') s \<and> lookAhead KEYWORD (Some ''def'') s then
        (case parseItemDef parentId s of
           Inl e \<Rightarrow> Some (Inl e)
         | Inr (elemId, s1) \<Rightarrow> Some (Inr ((), pushChildOf parentId elemId s1)))
      else if check KEYWORD (Some ''port'') s \<and> lookAhead KEYWORD (Some ''def'') s then
        (case parsePortDef parentId s of
           Inl e \<Rightarrow> Some (Inl e)
         | Inr (elemId, s1) \<Rightarrow> Some (Inr ((), pushChildOf parentId elemId s1)))
      else if check KEYWORD (Some ''part'') s \<and> lookAhead KEYWORD (Some ''def'') s then
        (case parsePartDef parentId s of
           None \<Rightarrow> None
         | Some r \<Rightarrow>
        (case r of
           Inl e \<Rightarrow> Some (Inl e)
         | Inr (elemId, s1) \<Rightarrow> Some (Inr ((), pushChildOf parentId elemId s1))))
      else if check KEYWORD (Some ''part'') s then
        (case parsePart parentId s of
           Inl e \<Rightarrow> Some (Inl e)
         | Inr (elemId, s1) \<Rightarrow> Some (Inr ((), pushChildOf parentId elemId s1)))
      else if check KEYWORD (Some ''requirement'') s \<and> lookAhead KEYWORD (Some ''def'') s then
        (case parseRequirementDef parentId s of
           Inl e \<Rightarrow> Some (Inl e)
         | Inr (elemId, s1) \<Rightarrow> Some (Inr ((), pushChildOf parentId elemId s1)))
      else if check KEYWORD (Some ''state'') s \<and> lookAhead KEYWORD (Some ''def'') s then
        (case parseStateDef parentId s of
           None \<Rightarrow> None
         | Some r \<Rightarrow>
        (case r of
           Inl e \<Rightarrow> Some (Inl e)
         | Inr (elemId, s1) \<Rightarrow> Some (Inr ((), pushChildOf parentId elemId s1))))
      else if check KEYWORD (Some ''interface'') s then
        (case parseConnection parentId s of
           Inl e \<Rightarrow> Some (Inl e)
         | Inr (elemId, s1) \<Rightarrow>
             Some (Inr ((), case elemId of None \<Rightarrow> s1 | Some c \<Rightarrow> pushChildOf parentId c s1)))
      else if check KEYWORD (Some ''bind'') s then
        (case parseBind parentId s of
           Inl e \<Rightarrow> Some (Inl e)
         | Inr (elemId, s1) \<Rightarrow> Some (Inr ((), pushChildOf parentId elemId s1)))
      else Some (Inr ((), snd (advance s))))"

lemma tokens_pushChildOf [simp]: "tokens (pushChildOf p c s) = tokens s"
  by (simp add: pushChildOf_def)

lemma pos_pushChildOf [simp]: "pos (pushChildOf p c s) = pos s"
  by (simp add: pushChildOf_def)

lemma stepped_pushChildOf [simp]: "stepped s (pushChildOf p c s') = stepped s s'"
  by (simp add: stepped_def)

lemma packageBodyStep_cases:
  assumes "packageBodyStep p s = Some (Inr (u, s'))"
  obtains
    (itemDef) i s1 where "parseItemDef p s = Inr (i, s1)" and "s' = pushChildOf p i s1"
  | (portDef) i s1 where "parsePortDef p s = Inr (i, s1)" and "s' = pushChildOf p i s1"
  | (partDef) i s1 where "parsePartDef p s = Some (Inr (i, s1))" and "s' = pushChildOf p i s1"
  | (part) i s1 where "parsePart p s = Inr (i, s1)" and "s' = pushChildOf p i s1"
  | (requirementDef) i s1 where "parseRequirementDef p s = Inr (i, s1)"
      and "s' = pushChildOf p i s1"
  | (stateDef) i s1 where "parseStateDef p s = Some (Inr (i, s1))"
      and "s' = pushChildOf p i s1"
  | (skipped) "parseConnection p s = Inr (None, s')"
  | (connection) i s1 where "parseConnection p s = Inr (Some i, s1)"
      and "s' = pushChildOf p i s1"
  | (bind) i s1 where "parseBind p s = Inr (i, s1)" and "s' = pushChildOf p i s1"
  | (other) "s' = snd (advance s)"
  using assms unfolding packageBodyStep_def
  apply (simp split: if_splits)
          apply (auto split: sum.splits option.splits)
  done

lemma stepped_packageBodyStep:
  assumes "packageBodyStep p s = Some (Inr (u, s'))"
  shows "stepped s s'"
  using assms
  by (cases rule: packageBodyStep_cases)
    (auto dest: stepped_parseItemDef stepped_parsePortDef stepped_parsePartDef
      stepped_parsePart stepped_parseRequirementDef stepped_parseStateDef
      stepped_parseConnection stepped_parseBind)

function parsePackageBody :: "string \<Rightarrow> SysMLParser \<Rightarrow> unit Outcome" where
  "parsePackageBody parentId s =
     (if inBody s then
        (case packageBodyStep parentId s of
           None \<Rightarrow> None
         | Some r \<Rightarrow>
        (case r of
           Inl e \<Rightarrow> Some (Inl e)
         | Inr (_, s1) \<Rightarrow> parsePackageBody parentId s1))
      else Some (Inr ((), s)))"
  by pat_completeness auto
termination
  by (relation "measure (\<lambda>(parentId, s). remaining s)")
    (auto intro!: stepped_remaining dest: stepped_packageBodyStep simp: inBody_in_range)

declare parsePackageBody.simps [simp del]

text \<open>\<open>!parent\<close> (line 94) holds for an absent parent and for the empty string.\<close>

definition parsePackage :: "string option \<Rightarrow> SysMLParser \<Rightarrow> unit Outcome" where
  "parsePackage parent' s =
     (case expect KEYWORD (Some ''package'') s of Inl e \<Rightarrow> Some (Inl e) | Inr (_, s1) \<Rightarrow>
     (case expect IDENTIFIER None s1 of Inl e \<Rightarrow> Some (Inl e) | Inr (nameTok, s2) \<Rightarrow>
     (case generateId s2 of (i, s3) \<Rightarrow>
     (case setElement i
             \<lparr>name = tvalue nameTok, elem_id = i, parent = parent',
               children = [], variant = Package\<rparr> s3 of s4 \<Rightarrow>
     (case (if parent' = None \<or> parent' = Some ''''
            then s4\<lparr>model := (model s4)\<lparr>rootPackage := Some i\<rparr>\<rparr> else s4) of s5 \<Rightarrow>
     (case expect LBRACE None s5 of Inl e \<Rightarrow> Some (Inl e) | Inr (_, s6) \<Rightarrow>
     (case parsePackageBody i s6 of
        None \<Rightarrow> None
      | Some r \<Rightarrow>
     (case r of
        Inl e \<Rightarrow> Some (Inl e)
      | Inr (_, s7) \<Rightarrow>
     (case expect RBRACE None s7 of
        Inl e \<Rightarrow> Some (Inl e)
      | Inr (_, s8) \<Rightarrow> Some (Inr ((), s8)))))))))))"

subsection \<open>parse (lines 26-38) and parseSysML (lines 555-558)\<close>

text \<open>
  \<open>parse\<close> is a method: \<open>this\<close> is the parser object it is called on, whose four fields it
  overwrites before anything else. It returns \<open>this.model\<close>.
\<close>

definition parse :: "SysMLParser \<Rightarrow> string \<Rightarrow> SysMLModel Outcome" where
  "parse this src =
     (case this\<lparr>tokens := filter (\<lambda>t. ttype t \<noteq> COMMENT) (tokenize src),
                pos := 0,
                model := \<lparr>elements = [], rootPackage = None\<rparr>,
                idCounter := 0\<rparr> of s \<Rightarrow>
      if check KEYWORD (Some ''package'') s then
        (case parsePackage None s of
           None \<Rightarrow> None
         | Some r \<Rightarrow>
        (case r of
           Inl e \<Rightarrow> Some (Inl e)
         | Inr (_, s1) \<Rightarrow> Some (Inr (model s1, s1))))
      else Some (Inr (model s, s)))"

text \<open>The field initialisers of the class, lines 21-24.\<close>

definition newSysMLParser :: SysMLParser where
  "newSysMLParser =
     \<lparr>tokens = [], pos = 0, model = \<lparr>elements = [], rootPackage = None\<rparr>, idCounter = 0\<rparr>"

definition parseSysML :: "string \<Rightarrow> SysMLModel Outcome" where
  "parseSysML src = parse newSysMLParser src"

section \<open>Query layer (ModelProvider)\<close>

text \<open>The model held by the provider is \<open>null\<close> (\<open>None\<close>) until a source has been loaded.\<close>

definition getElement :: "SysMLModel option \<Rightarrow> string \<Rightarrow> SysMLElement option" where
  "getElement m i = (case m of None \<Rightarrow> None | Some mm \<Rightarrow> map_of (elements mm) i)"

definition getChildren :: "SysMLModel option \<Rightarrow> string \<Rightarrow> SysMLElement list" where
  "getChildren m i =
     (case getElement m i of
        None \<Rightarrow> []
      | Some element \<Rightarrow> List.map_filter (\<lambda>childId. getElement m childId) (children element))"

definition getRootElements :: "SysMLModel option \<Rightarrow> SysMLElement list" where
  "getRootElements m =
     (case m of
        None \<Rightarrow> []
      | Some mm \<Rightarrow>
          (case rootPackage mm of
             None \<Rightarrow> []
           | Some r \<Rightarrow> if r = '''' then [] else getChildren m r))"

definition getPartDefs :: "SysMLModel option \<Rightarrow> SysMLElement list" where
  "getPartDefs m =
     (case m of
        None \<Rightarrow> []
      | Some mm \<Rightarrow> filter (\<lambda>e. elementType e = type_part_def) (map snd (elements mm)))"

definition getConnections :: "SysMLModel option \<Rightarrow> SysMLElement list" where
  "getConnections m =
     (case m of
        None \<Rightarrow> []
      | Some mm \<Rightarrow>
          filter (\<lambda>e. elementType e = type_connection \<or> elementType e = type_bind)
            (map snd (elements mm)))"

section \<open>Properties of the lexer\<close>

text \<open>
  The conditions of lines 64, 76, 91, 112, 138, 155 and 187 all fail for the character at
  \<open>pos\<close>: the loop body falls through to lines 200-201.
\<close>

definition unknownChar :: "string \<Rightarrow> nat \<Rightarrow> bool" where
  "unknownChar src p =
     (let char = src ! p in
      \<not> isSpace char
      \<and> \<not> (char = CHR ''/'' \<and> nextIs src p (\<lambda>c. c = CHR ''/''))
      \<and> \<not> (char = CHR ''/'' \<and> nextIs src p (\<lambda>c. c = CHR ''*''))
      \<and> char \<noteq> CHR 0x22
      \<and> \<not> (isDigit char \<or> (char = CHR ''.'' \<and> nextIs src p isDigit))
      \<and> \<not> isIdentStart char
      \<and> map_of singleTokens char = None)"

definition eofToken :: "nat \<Rightarrow> nat \<Rightarrow> Token" where
  "eofToken l c = \<lparr>ttype = EOF, tvalue = '''', tline = l, tcolumn = c\<rparr>"

lemma tokenizeLoop_ends_with_EOF: "\<exists>ts l c. tokenizeLoop src st = ts @ [eofToken l c]"
proof (induction src st rule: tokenizeLoop.induct)
  case (1 src st)
  show ?case
  proof (cases "lpos st < length src")
    case True
    with 1 show ?thesis by (subst tokenizeLoop.simps) simp
  next
    case False
    then show ?thesis by (subst tokenizeLoop.simps) (auto simp: eofToken_def)
  qed
qed

lemma lexStep_unknownChar:
  "unknownChar src (lpos st) \<Longrightarrow> lexStep src st = st\<lparr>lpos := lpos st + 1, lcolumn := lcolumn st + 1\<rparr>"
  by (auto simp: unknownChar_def lexStep_def Let_def)

text \<open>
  C9. \<open>tokenize\<close> is a total function (its loops are defined with termination proofs), so it
  returns on every input; the token list it returns ends with the end-of-input token; and an
  iteration of the main loop at a character that no lexing rule matches advances the position
  and the column by one and leaves the token list as it is.
\<close>

theorem tokenize_total_ends_with_EOF_skips_unknown:
  "(\<exists>ts l c. tokenize src = ts @ [eofToken l c])
   \<and> (lpos st < length src \<and> unknownChar src (lpos st)
        \<longrightarrow> lexStep src st = st\<lparr>lpos := lpos st + 1, lcolumn := lcolumn st + 1\<rparr>
          \<and> ltokens (lexStep src st) = ltokens st)"
  using tokenizeLoop_ends_with_EOF [of src "\<lparr>lpos = 0, lline = 1, lcolumn = 1, ltokens = []\<rparr>"]
  by (auto simp: tokenize_def lexStep_unknownChar)

theorem tokenize_total_ends_with_EOF_skips_unknown_witness:
  "lpos \<lparr>lpos = 1, lline = 1, lcolumn = 2, ltokens = []\<rparr> < length ''a#b''
   \<and> unknownChar ''a#b'' (lpos \<lparr>lpos = 1, lline = 1, lcolumn = 2, ltokens = []\<rparr>)
   \<and> lexStep ''a#b'' \<lparr>lpos = 1, lline = 1, lcolumn = 2, ltokens = []\<rparr>
       = \<lparr>lpos = 2, lline = 1, lcolumn = 3, ltokens = []\<rparr>
   \<and> (\<exists>ts l c. tokenize ''a#b'' = ts @ [eofToken l c])"
proof -
  have u: "unknownChar ''a#b'' (lpos \<lparr>lpos = 1, lline = 1, lcolumn = 2, ltokens = []\<rparr>)"
    by (simp add: unknownChar_def nextIs_def isSpace_def isDigit_def isIdentStart_def
        singleTokens_def)
  show ?thesis
    using u tokenize_total_ends_with_EOF_skips_unknown
      [of "''a#b''" "\<lparr>lpos = 1, lline = 1, lcolumn = 2, ltokens = []\<rparr>"]
    by simp
qed

section \<open>Properties of parse\<close>

lemma tokenize_filtered_nonempty:
  "filter (\<lambda>t. ttype t \<noteq> COMMENT) (tokenize src) \<noteq> []"
proof -
  obtain ts l c where "tokenize src = ts @ [eofToken l c]"
    using tokenizeLoop_ends_with_EOF
      [of src "\<lparr>lpos = 0, lline = 1, lcolumn = 1, ltokens = []\<rparr>"]
    by (auto simp: tokenize_def)
  then show ?thesis by (simp add: eofToken_def)
qed

text \<open>The fields of the parser after lines 27-30 of \<open>parse\<close>.\<close>

definition resetParser :: "string \<Rightarrow> SysMLParser" where
  "resetParser src =
     \<lparr>tokens = filter (\<lambda>t. ttype t \<noteq> COMMENT) (tokenize src), pos = 0,
       model = \<lparr>elements = [], rootPackage = None\<rparr>, idCounter = 0\<rparr>"

lemma parse_reset:
  "parse this src =
     (if check KEYWORD (Some ''package'') (resetParser src) then
        (case parsePackage None (resetParser src) of
           None \<Rightarrow> None
         | Some r \<Rightarrow>
        (case r of
           Inl e \<Rightarrow> Some (Inl e)
         | Inr (_, s1) \<Rightarrow> Some (Inr (model s1, s1))))
      else Some (Inr (model (resetParser src), resetParser src)))"
  by (cases this) (simp add: parse_def resetParser_def)

text \<open>
  C3. When the first token that is not a comment is not the keyword \<open>package\<close>, \<open>parse\<close>
  returns, without an error, the Model with an empty element map and no root package.
\<close>

theorem parse_without_package_is_empty:
  assumes "\<not> (ttype (hd (filter (\<lambda>t. ttype t \<noteq> COMMENT) (tokenize src))) = KEYWORD
            \<and> tvalue (hd (filter (\<lambda>t. ttype t \<noteq> COMMENT) (tokenize src))) = ''package'')"
  shows "\<exists>s. parse this src = Some (Inr (\<lparr>elements = [], rootPackage = None\<rparr>, s))"
proof -
  have "current (resetParser src) = hd (filter (\<lambda>t. ttype t \<noteq> COMMENT) (tokenize src))"
    using tokenize_filtered_nonempty [of src]
    by (simp add: current_def resetParser_def hd_conv_nth)
  with assms have "\<not> check KEYWORD (Some ''package'') (resetParser src)"
    by (auto simp: check_def Let_def)
  then show ?thesis
    by (simp add: parse_reset resetParser_def)
qed

theorem parse_without_package_is_empty_witness:
  "\<not> (ttype (hd (filter (\<lambda>t. ttype t \<noteq> COMMENT) (tokenize ''''))) = KEYWORD
      \<and> tvalue (hd (filter (\<lambda>t. ttype t \<noteq> COMMENT) (tokenize ''''))) = ''package'')
   \<and> (\<exists>s. parse newSysMLParser '''' = Some (Inr (\<lparr>elements = [], rootPackage = None\<rparr>, s)))"
proof -
  have h: "\<not> (ttype (hd (filter (\<lambda>t. ttype t \<noteq> COMMENT) (tokenize ''''))) = KEYWORD
      \<and> tvalue (hd (filter (\<lambda>t. ttype t \<noteq> COMMENT) (tokenize ''''))) = ''package'')"
    by code_simp
  from h parse_without_package_is_empty [OF h, of newSysMLParser] show ?thesis by simp
qed

text \<open>
  C8. The outcome of \<open>parse\<close> on a source text (the Model, the error, or not returning) does
  not depend on the fields the parser object had before the call: two parses of the same text,
  by the same parser or by two parsers, give equal Models, ids included.
\<close>

theorem parse_independent_of_parser_state:
  "map_option (map_sum id fst) (parse this src) = map_option (map_sum id fst) (parse that src)"
  by (simp add: parse_reset)

section \<open>Properties of the query layer\<close>

text \<open>
  C10. \<open>getConnections\<close> returns exactly the elements of the map whose \<open>type\<close> is
  \<open>connection\<close> or \<open>bind\<close>.
\<close>

theorem getConnections_connection_or_bind:
  "e \<in> set (getConnections (Some m))
   \<longleftrightarrow> (\<exists>k. (k, e) \<in> set (elements m))
       \<and> (elementType e = type_connection \<or> elementType e = type_bind)"
  by (force simp: getConnections_def)

section \<open>Errors and non-termination\<close>

text \<open>Without a closing brace among the tokens, the loop of line 436 does not return.\<close>

lemma actionBodyLoop_diverges:
  assumes "\<forall>t \<in> set (tokens s). ttype t \<noteq> RBRACE"
  shows "actionBodyLoop s = None"
proof (cases "actionBodyLoop s")
  case None
  then show ?thesis .
next
  case (Some s')
  then have "moved s s'" and c: "check RBRACE None s'"
    by (auto dest: actionBodyLoop_Some)
  then have "tokens s' = tokens s" by (simp add: moved_def)
  with c assms show ?thesis
    by (auto simp: check_def current_def Let_def split: if_splits)
qed

text \<open>The equations that evaluate the lexer and the parser on a given source text.\<close>

lemmas lexer_eval = tokenize_def tokenizeLoop.simps lexStep_def lineCommentLoop.simps
  blockCommentLoop.simps stringLoop.simps charsLoop.simps push_def slice_def nextIs_def
  isSpace_def isDigit_def isIdentStart_def isIdentPart_def isNumberPart_def KEYWORDS_def
  singleTokens_def newline_def Let_def

lemmas parser_eval = parseSysML_def newSysMLParser_def parse_def parsePackage_def
  parsePackageBody.simps packageBodyStep_def parseItemDef_def skipBodyLoop.simps
  parsePortDef_def portDefBodyLoop.simps portDefBodyStep_def parsePartDef_def
  parsePartDefBody.simps partDefBodyStep_def parsePort_def parsePart_def
  parseRequirementDef_def requirementDefBodyLoop.simps requirementDefBodyStep_def
  parseStateDef_def parseStateDefBody.simps stateDefBodyStep_def parseState_def
  stateBodyLoop.simps stateBodyStep_def parseTransition_def transitionLoop.simps
  transitionStep_def parseConnection_def skipStatementLoop.simps parseBind_def
  parseQualifiedName_def qualifiedNameLoop.simps pushChildOf_def pushChild_def onVariant_def
  setElement_def generateId_def expect_def match_def check_def advance_def current_def
  lookAhead_def inBody_def inStatement_def showNat.simps

text \<open>
  C2, counterexample. The source \<open>part def { }\<close> does not start with \<open>package\<close>, so
  \<open>parse\<close> calls no production: it raises no error and returns the empty Model.
\<close>

theorem part_def_at_top_level_returns_empty_model:
  "map_option (map_sum id fst) (parseSysML ''part def { }'')
     = Some (Inr \<lparr>elements = [], rootPackage = None\<rparr>)"
  by code_simp

text \<open>The message of the error raised for a missing identifier at token \<open>t\<close>.\<close>

definition expectedIdentifier :: "Token \<Rightarrow> string" where
  "expectedIdentifier t =
     ''Expected IDENTIFIER but got '' @ showType (ttype t) @ '' '' @ quoted (tvalue t)
       @ '' at line '' @ showNat (tline t)"

lemma parsePartDef_missing_name:
  assumes "check KEYWORD (Some ''part'') s" and "lookAhead KEYWORD (Some ''def'') s"
    and "ttype (current (s\<lparr>pos := pos s + 2\<rparr>)) \<noteq> IDENTIFIER"
  shows "parsePartDef p s = Some (Inl (expectedIdentifier (current (s\<lparr>pos := pos s + 2\<rparr>))))"
proof -
  have 1: "expect KEYWORD (Some ''part'') s = Inr (current s, s\<lparr>pos := pos s + 1\<rparr>)"
    using assms(1) by (simp add: expect_def advance_def)
  have "check KEYWORD (Some ''def'') (s\<lparr>pos := pos s + 1\<rparr>)"
    using assms(2) by (auto simp: lookAhead_def check_def current_def Let_def split: if_splits)
  then have 2: "expect KEYWORD (Some ''def'') (s\<lparr>pos := pos s + 1\<rparr>)
      = Inr (current (s\<lparr>pos := pos s + 1\<rparr>), s\<lparr>pos := pos s + 2\<rparr>)"
    by (simp add: expect_def advance_def)
  have 3: "expect IDENTIFIER None (s\<lparr>pos := pos s + 2\<rparr>)
      = Inl (expectedIdentifier (current (s\<lparr>pos := pos s + 2\<rparr>)))"
    using assms(3) by (simp add: expect_def check_def expectMessage_def expectedIdentifier_def)
  show ?thesis
    using 1 2 3 by (simp add: parsePartDef_def)
qed

text \<open>
  C2, amended. Inside a package body, \<open>part def\<close> followed by a token that is not an
  identifier makes the parser raise \<open>Expected IDENTIFIER but got ... at line n\<close>, where the
  type, the text and the line \<open>n\<close> are those of the offending token; the error ends the body
  loop, and \<open>parse\<close> of \<open>package P { part def { } }\<close> returns no Model but this error.
\<close>

theorem part_def_missing_name_raises:
  "(check KEYWORD (Some ''part'') s \<and> lookAhead KEYWORD (Some ''def'') s
      \<and> ttype (current (s\<lparr>pos := pos s + 2\<rparr>)) \<noteq> IDENTIFIER
     \<longrightarrow> parsePackageBody p s
          = Some (Inl (expectedIdentifier (current (s\<lparr>pos := pos s + 2\<rparr>)))))
   \<and> parseSysML ''package P { part def { } }''
       = Some (Inl (''Expected IDENTIFIER but got LBRACE '' @ quoted ''{'' @ '' at line 1''))"
proof (intro conjI impI)
  assume a: "check KEYWORD (Some ''part'') s \<and> lookAhead KEYWORD (Some ''def'') s
      \<and> ttype (current (s\<lparr>pos := pos s + 2\<rparr>)) \<noteq> IDENTIFIER"
  then have b: "inBody s" and c: "\<not> check KEYWORD (Some ''item'') s"
    and d: "\<not> check KEYWORD (Some ''port'') s"
    by (auto simp: inBody_def check_def Let_def)
  from a have "parsePartDef p s
      = Some (Inl (expectedIdentifier (current (s\<lparr>pos := pos s + 2\<rparr>))))"
    by (simp add: parsePartDef_missing_name)
  with a c d have "packageBodyStep p s
      = Some (Inl (expectedIdentifier (current (s\<lparr>pos := pos s + 2\<rparr>))))"
    by (simp add: packageBodyStep_def)
  with b show "parsePackageBody p s
      = Some (Inl (expectedIdentifier (current (s\<lparr>pos := pos s + 2\<rparr>))))"
    by (subst parsePackageBody.simps) simp
next
  show "parseSysML ''package P { part def { } }''
       = Some (Inl (''Expected IDENTIFIER but got LBRACE '' @ quoted ''{'' @ '' at line 1''))"
    by code_simp
qed

text \<open>
  The same definition on three lines: the parser stands at \<open>part\<close> and the error names
  line 3, where the brace is.
\<close>

definition threeLines :: SysMLParser where
  "threeLines =
     (resetParser (''package P {'' @ [newline] @ ''part def'' @ [newline] @ ''{ } }''))
       \<lparr>pos := 3\<rparr>"

theorem part_def_missing_name_raises_witness:
  "check KEYWORD (Some ''part'') threeLines \<and> lookAhead KEYWORD (Some ''def'') threeLines
   \<and> ttype (current (threeLines\<lparr>pos := pos threeLines + 2\<rparr>)) \<noteq> IDENTIFIER
   \<and> parsePackageBody ''elem_1'' threeLines
       = Some (Inl (''Expected IDENTIFIER but got LBRACE '' @ quoted ''{'' @ '' at line 3''))"
proof -
  have h: "check KEYWORD (Some ''part'') threeLines \<and> lookAhead KEYWORD (Some ''def'') threeLines
      \<and> ttype (current (threeLines\<lparr>pos := pos threeLines + 2\<rparr>)) \<noteq> IDENTIFIER"
    by code_simp
  have m: "expectedIdentifier (current (threeLines\<lparr>pos := pos threeLines + 2\<rparr>))
      = ''Expected IDENTIFIER but got LBRACE '' @ quoted ''{'' @ '' at line 3''"
    by code_simp
  from h m part_def_missing_name_raises [of threeLines "''elem_1''"] show ?thesis
    by simp
qed

text \<open>
  C1. The loop of line 436 tests for \<open>RBRACE\<close> only. On a source that ends inside the body
  of an entry action, \<open>current\<close> returns the end-of-input token for ever, the loop never
  exits, and \<open>parse\<close> does not return.
\<close>

theorem parse_does_not_return_on_unclosed_action_body:
  "parseSysML ''package P { state def S { state A { entry action foo {'' = None"
  by (simp add: lexer_eval parser_eval actionBodyLoop_diverges)

section \<open>Connections and transitions\<close>

text \<open>
  \<open>upcoming s spelling\<close>: the tokens at the cursor have the given types and texts, in this
  order (their lines and columns are arbitrary).
\<close>

definition tokenKind :: "Token \<Rightarrow> TokenType \<times> string" where
  "tokenKind t = (ttype t, tvalue t)"

definition upcoming :: "SysMLParser \<Rightarrow> (TokenType \<times> string) list \<Rightarrow> bool" where
  "upcoming s spelling =
     (map tokenKind (take (length spelling) (drop (pos s) (tokens s))) = spelling)"

lemma upcomingD:
  assumes "upcoming s spelling"
  obtains ts others where "drop (pos s) (tokens s) = ts @ others" and "map tokenKind ts = spelling"
  using assms append_take_drop_id [of "length spelling" "drop (pos s) (tokens s)"]
  unfolding upcoming_def by metis

lemma current_drop:
  "current s =
     (case drop (pos s) (tokens s) of
        [] \<Rightarrow> \<lparr>ttype = EOF, tvalue = '''', tline = 0, tcolumn = 0\<rparr>
      | t # _ \<Rightarrow> t)"
  by (auto simp: current_def hd_drop_conv_nth [symmetric] split: list.splits)

lemma drop_Suc_tl: "drop (Suc n) xs = tl (drop n xs)"
  by (simp add: drop_Suc tl_drop)

lemmas cursor_eval = expect_def match_def check_def advance_def current_drop drop_Suc_tl
  generateId_def setElement_def tokenKind_def

lemma map_of_update_same: "map_of (AList.update k v al) k = Some v"
  by (simp add: update_conv')

text \<open>
  C7. When the tokens at the cursor spell \<open>interface connect (a.b, c.d);\<close>,
  \<open>parseConnection\<close> returns a new id and stores under it a connection whose source is the
  string \<open>a.b\<close> and whose target is the string \<open>c.d\<close>; no element is looked up by these
  names.
\<close>

theorem interface_connect_stores_endpoints_verbatim:
  assumes "upcoming s
     [(KEYWORD, ''interface''), (KEYWORD, ''connect''), (LPAREN, ''(''),
      (IDENTIFIER, ''a''), (DOT, ''.''), (IDENTIFIER, ''b''), (COMMA, '',''),
      (IDENTIFIER, ''c''), (DOT, ''.''), (IDENTIFIER, ''d''), (RPAREN, '')''),
      (SEMICOLON, '';'')]"
  shows "\<exists>s'. parseConnection p s = Inr (Some (fst (generateId s)), s')
     \<and> map_of (elements (model s')) (fst (generateId s))
         = Some \<lparr>name = ''a.b->c.d'', elem_id = fst (generateId s), parent = Some p,
                  children = [], variant = Connection ''a.b'' ''c.d''\<rparr>"
proof -
  from assms obtain ts others where d: "drop (pos s) (tokens s) = ts @ others"
    and "map tokenKind ts =
     [(KEYWORD, ''interface''), (KEYWORD, ''connect''), (LPAREN, ''(''),
      (IDENTIFIER, ''a''), (DOT, ''.''), (IDENTIFIER, ''b''), (COMMA, '',''),
      (IDENTIFIER, ''c''), (DOT, ''.''), (IDENTIFIER, ''d''), (RPAREN, '')''),
      (SEMICOLON, '';'')]"
    by (rule upcomingD)
  then obtain t1 t2 t3 t4 t5 t6 t7 t8 t9 t10 t11 t12 where
    ts: "ts = [t1, t2, t3, t4, t5, t6, t7, t8, t9, t10, t11, t12]"
    and k: "tokenKind t1 = (KEYWORD, ''interface'')" "tokenKind t2 = (KEYWORD, ''connect'')"
      "tokenKind t3 = (LPAREN, ''('')" "tokenKind t4 = (IDENTIFIER, ''a'')"
      "tokenKind t5 = (DOT, ''.'')" "tokenKind t6 = (IDENTIFIER, ''b'')"
      "tokenKind t7 = (COMMA, '','')" "tokenKind t8 = (IDENTIFIER, ''c'')"
      "tokenKind t9 = (DOT, ''.'')" "tokenKind t10 = (IDENTIFIER, ''d'')"
      "tokenKind t11 = (RPAREN, '')'')" "tokenKind t12 = (SEMICOLON, '';'')"
    by (auto simp: map_eq_Cons_conv)
  from d ts have d': "drop (pos s) (tokens s)
      = t1 # t2 # t3 # t4 # t5 # t6 # t7 # t8 # t9 # t10 # t11 # t12 # others"
    by simp
  show ?thesis
    using k
    by (simp add: parseConnection_def parseQualifiedName_def qualifiedNameLoop.simps
        cursor_eval d' map_of_update_same)
qed

text \<open>
  A clause of a transition is a keyword token \<open>first\<close>, \<open>accept\<close> or \<open>then\<close> followed by an
  identifier token; \<open>lastClause kw cl\<close> is the identifier of the last clause of \<open>cl\<close> with
  keyword \<open>kw\<close>, if there is one.
\<close>

definition isClause :: "Token \<times> Token \<Rightarrow> bool" where
  "isClause c =
     (case c of (k, x) \<Rightarrow>
        ttype k = KEYWORD \<and> tvalue k \<in> set [''first'', ''accept'', ''then'']
        \<and> ttype x = IDENTIFIER)"

definition clauseTokens :: "(Token \<times> Token) list \<Rightarrow> Token list" where
  "clauseTokens cl = concat (map (\<lambda>(k, x). [k, x]) cl)"

definition lastClause :: "string \<Rightarrow> (Token \<times> Token) list \<Rightarrow> string option" where
  "lastClause kw cl =
     (case filter (\<lambda>(k, x). tvalue k = kw) cl of
        [] \<Rightarrow> None
      | y # ys \<Rightarrow> Some (tvalue (snd (last (y # ys)))))"

lemma lastClause_Nil [simp]: "lastClause kw [] = None"
  by (simp add: lastClause_def)

lemma lastClause_Cons:
  "lastClause kw ((k, x) # cl) =
     (case lastClause kw cl of
        Some v \<Rightarrow> Some v
      | None \<Rightarrow> if tvalue k = kw then Some (tvalue x) else None)"
  by (auto simp: lastClause_def split: list.splits)

lemma transitionLoop_clauses:
  assumes "list_all isClause cl"
    and "drop (pos s) (tokens s) = clauseTokens cl @ semi # others"
    and "ttype semi = SEMICOLON"
  shows "\<exists>s'. transitionLoop (a, b, c) s =
        Inr ((case lastClause ''first'' cl of None \<Rightarrow> a | Some v \<Rightarrow> v,
              case lastClause ''then'' cl of None \<Rightarrow> b | Some v \<Rightarrow> v,
              case lastClause ''accept'' cl of None \<Rightarrow> c | Some v \<Rightarrow> Some v), s')
      \<and> drop (pos s') (tokens s') = semi # others
      \<and> model s' = model s \<and> idCounter s' = idCounter s"
  using assms
proof (induction cl arbitrary: s a b c)
  case Nil
  then have "\<not> inStatement s"
    by (simp add: inStatement_def check_def current_drop clauseTokens_def)
  with Nil show ?case
    by (subst transitionLoop.simps) (simp add: clauseTokens_def)
next
  case (Cons kx cl)
  obtain k x where kx: "kx = (k, x)" by (cases kx)
  from Cons.prems kx have cl: "list_all isClause cl" and c: "isClause (k, x)"
    by simp_all
  from c have k: "ttype k = KEYWORD"
      "tvalue k = ''first'' \<or> tvalue k = ''accept'' \<or> tvalue k = ''then''"
    and x: "ttype x = IDENTIFIER"
    by (auto simp: isClause_def)
  from Cons.prems kx have d: "drop (pos s) (tokens s) = k # x # clauseTokens cl @ semi # others"
    by (simp add: clauseTokens_def)
  let ?s2 = "s\<lparr>pos := Suc (Suc (pos s))\<rparr>"
  have d2: "drop (pos ?s2) (tokens ?s2) = clauseTokens cl @ semi # others"
    using d by (simp add: drop_Suc_tl)
  have g: "inStatement s"
    using d k by (simp add: inStatement_def check_def current_drop)
  note IH = Cons.IH [OF cl d2 Cons.prems(3)]
  from k(2) show ?case
  proof (elim disjE)
    assume f: "tvalue k = ''first''"
    then have st: "transitionStep (a, b, c) s = Inr ((tvalue x, b, c), ?s2)"
      using d k x by (simp add: transitionStep_def cursor_eval)
    from IH [of "tvalue x" b c] show ?thesis
      using g st f kx
      by (subst transitionLoop.simps) (auto simp: lastClause_Cons split: option.splits)
  next
    assume f: "tvalue k = ''accept''"
    then have st: "transitionStep (a, b, c) s = Inr ((a, b, Some (tvalue x)), ?s2)"
      using d k x by (simp add: transitionStep_def cursor_eval)
    from IH [of a b "Some (tvalue x)"] show ?thesis
      using g st f kx
      by (subst transitionLoop.simps) (auto simp: lastClause_Cons split: option.splits)
  next
    assume f: "tvalue k = ''then''"
    then have st: "transitionStep (a, b, c) s = Inr ((a, tvalue x, c), ?s2)"
      using d k x by (simp add: transitionStep_def cursor_eval)
    from IH [of a "tvalue x" c] show ?thesis
      using g st f kx
      by (subst transitionLoop.simps) (auto simp: lastClause_Cons split: option.splits)
  qed
qed

text \<open>
  C6. For a transition whose tokens are \<open>transition\<close>, a name, any list of clauses and a
  semicolon, \<open>parseTransition\<close> raises no error, consumes the tokens up to and including the
  semicolon, and stores a transition whose source, trigger and target are the identifiers of
  the last \<open>first\<close>, \<open>accept\<close> and \<open>then\<close> clause (the empty string, or no trigger, when
  there is no such clause), whatever the order and the number of the clauses.
\<close>

theorem parseTransition_last_clause_wins:
  assumes "list_all isClause cl"
    and "drop (pos s) (tokens s) = kw # nameTok # clauseTokens cl @ semi # others"
    and "tokenKind kw = (KEYWORD, ''transition'')" and "ttype nameTok = IDENTIFIER"
    and "ttype semi = SEMICOLON"
  shows "\<exists>s'. parseTransition p s = Inr (fst (generateId s), s')
     \<and> drop (pos s') (tokens s') = others
     \<and> map_of (elements (model s')) (fst (generateId s))
         = Some \<lparr>name = tvalue nameTok, elem_id = fst (generateId s), parent = Some p,
                  children = [],
                  variant = Transition
                    (case lastClause ''first'' cl of None \<Rightarrow> '''' | Some v \<Rightarrow> v)
                    (case lastClause ''then'' cl of None \<Rightarrow> '''' | Some v \<Rightarrow> v)
                    (lastClause ''accept'' cl)\<rparr>"
proof -
  let ?s3 = "s\<lparr>pos := Suc (Suc (pos s)), idCounter := Suc (idCounter s)\<rparr>"
  have d3: "drop (pos ?s3) (tokens ?s3) = clauseTokens cl @ semi # others"
    using assms(2) by (simp add: drop_Suc_tl)
  from transitionLoop_clauses [OF assms(1) d3 assms(5), of "''''" "''''" None]
  obtain s4 where l: "transitionLoop ('''', '''', None) ?s3 =
        Inr ((case lastClause ''first'' cl of None \<Rightarrow> '''' | Some v \<Rightarrow> v,
              case lastClause ''then'' cl of None \<Rightarrow> '''' | Some v \<Rightarrow> v,
              case lastClause ''accept'' cl of None \<Rightarrow> None | Some v \<Rightarrow> Some v), s4)"
    and d4: "drop (pos s4) (tokens s4) = semi # others"
    and m: "model s4 = model ?s3" "idCounter s4 = idCounter ?s3"
    by blast
  have o: "(case lastClause ''accept'' cl of None \<Rightarrow> None | Some v \<Rightarrow> Some v)
      = lastClause ''accept'' cl"
    by (simp split: option.splits)
  show ?thesis
    using assms(2-5) l d4 m
    by (simp add: parseTransition_def cursor_eval o map_of_update_same)
qed

text \<open>
  The parser inside the body of \<open>package P\<close>, at the statement
  \<open>interface connect (a.b, c.d);\<close>, with one id already given out.
\<close>

definition atConnect :: SysMLParser where
  "atConnect =
     (resetParser ''package P { interface connect (a.b, c.d); }'')\<lparr>pos := 3, idCounter := 1\<rparr>"

theorem interface_connect_stores_endpoints_verbatim_witness:
  "upcoming atConnect
     [(KEYWORD, ''interface''), (KEYWORD, ''connect''), (LPAREN, ''(''),
      (IDENTIFIER, ''a''), (DOT, ''.''), (IDENTIFIER, ''b''), (COMMA, '',''),
      (IDENTIFIER, ''c''), (DOT, ''.''), (IDENTIFIER, ''d''), (RPAREN, '')''),
      (SEMICOLON, '';'')]
   \<and> (\<exists>s'. parseConnection ''elem_1'' atConnect = Inr (Some ''elem_2'', s')
        \<and> map_of (elements (model s')) ''elem_2''
            = Some \<lparr>name = ''a.b->c.d'', elem_id = ''elem_2'', parent = Some ''elem_1'',
                     children = [], variant = Connection ''a.b'' ''c.d''\<rparr>)"
proof -
  have h: "upcoming atConnect
     [(KEYWORD, ''interface''), (KEYWORD, ''connect''), (LPAREN, ''(''),
      (IDENTIFIER, ''a''), (DOT, ''.''), (IDENTIFIER, ''b''), (COMMA, '',''),
      (IDENTIFIER, ''c''), (DOT, ''.''), (IDENTIFIER, ''d''), (RPAREN, '')''),
      (SEMICOLON, '';'')]"
    by code_simp
  have g: "fst (generateId atConnect) = ''elem_2''"
    by code_simp
  from interface_connect_stores_endpoints_verbatim [OF h, of "''elem_1''"] h show ?thesis
    unfolding g by simp
qed

lemma interface_connect_in_package:
  "map_option (map_sum id fst) (parseSysML ''package P { interface connect (a.b, c.d); }'')
     = Some (Inr \<lparr>elements =
          [(''elem_1'', \<lparr>name = ''P'', elem_id = ''elem_1'', parent = None,
                           children = [''elem_2''], variant = Package\<rparr>),
           (''elem_2'', \<lparr>name = ''a.b->c.d'', elem_id = ''elem_2'', parent = Some ''elem_1'',
                           children = [], variant = Connection ''a.b'' ''c.d''\<rparr>)],
          rootPackage = Some ''elem_1''\<rparr>)"
  by code_simp

text \<open>A transition with two \<open>first\<close> clauses, and \<open>then\<close> before \<open>accept\<close>.\<close>

definition atTransition :: SysMLParser where
  "atTransition = resetParser ''transition t first A then B first C accept go;''"

definition tk :: "TokenType \<Rightarrow> string \<Rightarrow> nat \<Rightarrow> Token" where
  "tk ty v c = \<lparr>ttype = ty, tvalue = v, tline = 1, tcolumn = c\<rparr>"

theorem parseTransition_last_clause_wins_witness:
  "list_all isClause
     [(tk KEYWORD ''first'' 14, tk IDENTIFIER ''A'' 20),
      (tk KEYWORD ''then'' 22, tk IDENTIFIER ''B'' 27),
      (tk KEYWORD ''first'' 29, tk IDENTIFIER ''C'' 35),
      (tk KEYWORD ''accept'' 37, tk IDENTIFIER ''go'' 44)]
   \<and> drop (pos atTransition) (tokens atTransition)
       = tk KEYWORD ''transition'' 1 # tk IDENTIFIER ''t'' 12
         # clauseTokens
             [(tk KEYWORD ''first'' 14, tk IDENTIFIER ''A'' 20),
              (tk KEYWORD ''then'' 22, tk IDENTIFIER ''B'' 27),
              (tk KEYWORD ''first'' 29, tk IDENTIFIER ''C'' 35),
              (tk KEYWORD ''accept'' 37, tk IDENTIFIER ''go'' 44)]
         @ tk SEMICOLON '';'' 46 # [tk EOF '''' 47]
   \<and> (\<exists>s'. parseTransition ''elem_9'' atTransition = Inr (''elem_1'', s')
        \<and> drop (pos s') (tokens s') = [tk EOF '''' 47]
        \<and> map_of (elements (model s')) ''elem_1''
            = Some \<lparr>name = ''t'', elem_id = ''elem_1'', parent = Some ''elem_9'',
                     children = [], variant = Transition ''C'' ''B'' (Some ''go'')\<rparr>)"
proof -
  let ?cl = "[(tk KEYWORD ''first'' 14, tk IDENTIFIER ''A'' 20),
      (tk KEYWORD ''then'' 22, tk IDENTIFIER ''B'' 27),
      (tk KEYWORD ''first'' 29, tk IDENTIFIER ''C'' 35),
      (tk KEYWORD ''accept'' 37, tk IDENTIFIER ''go'' 44)]"
  have a: "list_all isClause ?cl"
    by code_simp
  have b: "drop (pos atTransition) (tokens atTransition)
       = tk KEYWORD ''transition'' 1 # tk IDENTIFIER ''t'' 12 # clauseTokens ?cl
         @ tk SEMICOLON '';'' 46 # [tk EOF '''' 47]"
    by code_simp
  have c: "tokenKind (tk KEYWORD ''transition'' 1) = (KEYWORD, ''transition'')"
    and d: "ttype (tk IDENTIFIER ''t'' 12) = IDENTIFIER"
    and e: "ttype (tk SEMICOLON '';'' 46) = SEMICOLON"
    by (simp_all add: tk_def tokenKind_def)
  have g: "fst (generateId atTransition) = ''elem_1''"
    by code_simp
  have v: "lastClause ''first'' ?cl = Some ''C''" "lastClause ''then'' ?cl = Some ''B''"
    "lastClause ''accept'' ?cl = Some ''go''"
    by (simp_all add: lastClause_def tk_def)
  from parseTransition_last_clause_wins [OF a b c d e, of "''elem_9''"] a b show ?thesis
    unfolding g v by (simp add: tk_def)
qed

section \<open>Invariants of the model under construction\<close>

subsection \<open>Ids are never reused\<close>

lemma char_of_digit_inj:
  fixes a b :: nat
  assumes "a < 10" and "b < 10" and "char_of (48 + a) = (char_of (48 + b) :: char)"
  shows "a = b"
proof -
  from assms(3) have "of_char (char_of (48 + a) :: char) = (of_char (char_of (48 + b) :: char) :: nat)"
    by simp
  then have "(48 + a) mod 256 = (48 + b) mod 256"
    by (simp only: of_char_of)
  with assms(1,2) show ?thesis by simp
qed

lemma showNat_nonempty: "showNat n \<noteq> []"
  by (subst showNat.simps) simp

lemma showNat_inj: "showNat n = showNat m \<Longrightarrow> n = m"
proof (induction n arbitrary: m rule: showNat.induct)
  case (1 n)
  show ?case
  proof (cases "n < 10")
    case n: True
    show ?thesis
    proof (cases "m < 10")
      case True
      with n "1.prems" show ?thesis
        by (subst (asm) showNat.simps, subst (asm) (2) showNat.simps)
          (auto dest: char_of_digit_inj)
    next
      case False
      with n "1.prems" showNat_nonempty [of "m div 10"] show ?thesis
        by (subst (asm) showNat.simps, subst (asm) (2) showNat.simps) auto
    qed
  next
    case n: False
    show ?thesis
    proof (cases "m < 10")
      case True
      with n "1.prems" showNat_nonempty [of "n div 10"] show ?thesis
        by (subst (asm) showNat.simps, subst (asm) (2) showNat.simps) auto
    next
      case False
      with n "1.prems" have a: "showNat (n div 10) = showNat (m div 10)"
        and b: "char_of (48 + n mod 10) = (char_of (48 + m mod 10) :: char)"
        by (subst (asm) showNat.simps, subst (asm) (2) showNat.simps, simp)+
      from "1.IH" [OF n a] have "n div 10 = m div 10" .
      moreover from b have "n mod 10 = m mod 10"
        by (rule char_of_digit_inj [rotated 2]) simp_all
      ultimately show ?thesis
        by (metis div_mult_mod_eq)
    qed
  qed
qed

text \<open>The id that \<open>generateId\<close> returns when the counter becomes \<open>n\<close>.\<close>

definition mkId :: "nat \<Rightarrow> string" where
  "mkId n = ''elem_'' @ showNat n"

lemma mkId_inj [simp]: "mkId n = mkId m \<longleftrightarrow> n = m"
  by (auto simp: mkId_def dest: showNat_inj)

lemma generateId_mkId:
  "generateId s = (mkId (Suc (idCounter s)), s\<lparr>idCounter := Suc (idCounter s)\<rparr>)"
  by (simp add: generateId_def mkId_def)

subsection \<open>The invariant\<close>

definition lookup :: "SysMLParser \<Rightarrow> string \<Rightarrow> SysMLElement option" where
  "lookup s k = map_of (elements (model s)) k"

text \<open>
  \<open>listsInChildren e\<close>: the \<open>ports\<close> and \<open>parts\<close> of a part definition, and the \<open>states\<close>
  and \<open>transitions\<close> of a state definition, are sublists of its \<open>children\<close>, in the same
  order.
\<close>

definition listsInChildren :: "SysMLElement \<Rightarrow> bool" where
  "listsInChildren e =
     (case variant e of
        PartDef ps qs \<Rightarrow> subseq ps (children e) \<and> subseq qs (children e)
      | StateDef ss ts \<Rightarrow> subseq ss (children e) \<and> subseq ts (children e)
      | _ \<Rightarrow> True)"

text \<open>\<open>childrenOk m k cs\<close>: every id in \<open>cs\<close> is in the map \<open>m\<close>, with parent \<open>k\<close>.\<close>

definition childrenOk :: "(string \<Rightarrow> SysMLElement option) \<Rightarrow> string \<Rightarrow> string list \<Rightarrow> bool" where
  "childrenOk m k cs = (\<forall>c \<in> set cs. \<exists>e. m c = Some e \<and> parent e = Some k)"

definition issued :: "SysMLParser \<Rightarrow> string \<Rightarrow> bool" where
  "issued s k = (\<exists>n. 0 < n \<and> n \<le> idCounter s \<and> k = mkId n)"

definition modelInv :: "SysMLParser \<Rightarrow> bool" where
  "modelInv s =
     (distinct (map fst (elements (model s)))
      \<and> (\<forall>k e. lookup s k = Some e \<longrightarrow>
            elem_id e = k \<and> issued s k \<and> childrenOk (lookup s) k (children e)
            \<and> listsInChildren e))"

text \<open>
  \<open>extends s s'\<close>: every entry of the map of \<open>s\<close> is unchanged in \<open>s'\<close>, and the keys added
  are ids issued in between.
\<close>

definition extends :: "SysMLParser \<Rightarrow> SysMLParser \<Rightarrow> bool" where
  "extends s s' =
     (idCounter s \<le> idCounter s'
      \<and> rootPackage (model s') = rootPackage (model s)
      \<and> (\<forall>k e. lookup s k = Some e \<longrightarrow> lookup s' k = Some e)
      \<and> (\<forall>k e. lookup s' k = Some e \<longrightarrow> lookup s k = Some e \<or> (issued s' k \<and> \<not> issued s k)))"

lemma extends_refl [simp]: "extends s s"
  by (simp add: extends_def)

lemma issued_mono: "issued s k \<Longrightarrow> idCounter s \<le> idCounter s' \<Longrightarrow> issued s' k"
  by (auto simp: issued_def)

lemma extends_trans: "extends a b \<Longrightarrow> extends b c \<Longrightarrow> extends a c"
  unfolding extends_def
  by (smt (verit, best) issued_mono le_trans)

text \<open>\<open>sameModel s s'\<close>: only the cursor differs.\<close>

definition sameModel :: "SysMLParser \<Rightarrow> SysMLParser \<Rightarrow> bool" where
  "sameModel s s' = (model s' = model s \<and> idCounter s' = idCounter s)"

lemma sameModel_refl [simp]: "sameModel s s"
  by (simp add: sameModel_def)

lemma sameModel_trans: "sameModel a b \<Longrightarrow> sameModel b c \<Longrightarrow> sameModel a c"
  by (simp add: sameModel_def)

lemma sameModel_pos [simp]: "sameModel s (s\<lparr>pos := n\<rparr>)"
  by (simp add: sameModel_def)

lemma sameModel_advance [simp]: "sameModel s (snd (advance s))"
  by (simp add: sameModel_def advance_def)

lemma sameModel_match: "match ty val s = (b, s') \<Longrightarrow> sameModel s s'"
  by (auto simp: match_def sameModel_def advance_def split: if_splits)

lemma sameModel_expect: "expect ty val s = Inr (t, s') \<Longrightarrow> sameModel s s'"
  by (auto simp: expect_def sameModel_def advance_def split: if_splits)

lemma sameModel_extends: "sameModel s s' \<Longrightarrow> extends s s'"
  by (simp add: sameModel_def extends_def lookup_def issued_def)

lemma sameModel_lookup: "sameModel s s' \<Longrightarrow> lookup s' = lookup s"
  by (simp add: sameModel_def lookup_def fun_eq_iff)

lemma sameModel_issued: "sameModel s s' \<Longrightarrow> issued s' = issued s"
  by (simp add: sameModel_def issued_def fun_eq_iff)

lemma sameModel_modelInv: "sameModel s s' \<Longrightarrow> modelInv s' = modelInv s"
  by (simp add: modelInv_def sameModel_lookup sameModel_issued) (simp add: sameModel_def)
subsection \<open>Productions that add one element without children\<close>

text \<open>
  \<open>leaf p s i s'\<close>: from \<open>s\<close>, the production issued the next id \<open>i\<close> and stored under it
  an element with parent \<open>p\<close> and no children; nothing else changed in the model.
\<close>

definition leaf :: "string option \<Rightarrow> SysMLParser \<Rightarrow> string \<Rightarrow> SysMLParser \<Rightarrow> bool" where
  "leaf p s i s' =
     (\<exists>e t. s' = setElement i e t \<and> i = mkId (Suc (idCounter s)) \<and> model t = model s
        \<and> idCounter t = Suc (idCounter s) \<and> elem_id e = i \<and> parent e = p
        \<and> children e = [] \<and> listsInChildren e)"

lemma leafI:
  "model t = model s \<Longrightarrow> idCounter t = Suc (idCounter s) \<Longrightarrow> i = mkId (Suc (idCounter s))
   \<Longrightarrow> elem_id e = i \<Longrightarrow> parent e = p \<Longrightarrow> children e = [] \<Longrightarrow> listsInChildren e
   \<Longrightarrow> leaf p s i (setElement i e t)"
  unfolding leaf_def by blast

text \<open>
  \<open>produces p s i s'\<close>: if the invariant holds before, it holds after, the map has only
  grown, and \<open>i\<close> is in the map with parent \<open>p\<close>.
\<close>

definition produces :: "string option \<Rightarrow> SysMLParser \<Rightarrow> string \<Rightarrow> SysMLParser \<Rightarrow> bool" where
  "produces p s i s' =
     (modelInv s \<longrightarrow>
        modelInv s' \<and> extends s s' \<and> (\<exists>e. lookup s' i = Some e \<and> parent e = p))"

lemma lookup_setElement: "lookup (setElement i e t) k = (if k = i then Some e else lookup t k)"
  by (simp add: lookup_def setElement_def update_conv')

lemma issued_setElement [simp]: "issued (setElement i e t) = issued t"
  by (simp add: issued_def setElement_def fun_eq_iff)

lemma not_issued_next: "\<not> issued s (mkId (Suc (idCounter s)))"
  by (auto simp: issued_def)

lemma modelInv_fresh: "modelInv s \<Longrightarrow> \<not> issued s k \<Longrightarrow> lookup s k = None"
  by (cases "lookup s k") (auto simp: modelInv_def)

lemma childrenOk_Nil [simp]: "childrenOk m k []"
  by (simp add: childrenOk_def)

lemma childrenOk_mono:
  "childrenOk m k cs \<Longrightarrow> (\<And>c e. m c = Some e \<Longrightarrow> m' c = Some e) \<Longrightarrow> childrenOk m' k cs"
  unfolding childrenOk_def by blast

lemma leaf_produces:
  assumes "leaf p s i s'"
  shows "produces p s i s'"
  unfolding produces_def
proof (intro impI)
  assume inv: "modelInv s"
  from assms obtain e t where s': "s' = setElement i e t" and i: "i = mkId (Suc (idCounter s))"
    and t: "model t = model s" "idCounter t = Suc (idCounter s)"
    and e: "elem_id e = i" "parent e = p" "children e = []" "listsInChildren e"
    unfolding leaf_def by blast
  have lt: "lookup t = lookup s"
    using t by (simp add: lookup_def fun_eq_iff)
  have fresh: "lookup s i = None"
    using inv i by (simp add: modelInv_fresh not_issued_next)
  have l: "\<And>k. lookup s' k = (if k = i then Some e else lookup s k)"
    by (simp add: s' lookup_setElement lt)
  have keep: "\<And>c x. lookup s c = Some x \<Longrightarrow> lookup s' c = Some x"
    using fresh by (auto simp: l)
  have iss: "\<And>k. issued s k \<Longrightarrow> issued s' k"
    using t by (auto simp: s' issued_def)
  have issi: "issued s' i"
    using t i by (auto simp: s' issued_def)
  have dist: "distinct (map fst (elements (model s')))"
    using inv t by (simp add: s' setElement_def modelInv_def distinct_update)
  have "\<forall>k x. lookup s' k = Some x \<longrightarrow>
      elem_id x = k \<and> issued s' k \<and> childrenOk (lookup s') k (children x)
        \<and> listsInChildren x"
  proof (intro allI impI)
    fix k x
    assume "lookup s' k = Some x"
    then consider "k = i" "x = e" | "k \<noteq> i" "lookup s k = Some x"
      by (auto simp: l split: if_splits)
    then show "elem_id x = k \<and> issued s' k \<and> childrenOk (lookup s') k (children x)
        \<and> listsInChildren x"
    proof cases
      case 1
      with e issi show ?thesis by simp
    next
      case 2
      with inv have "elem_id x = k" "issued s k" "childrenOk (lookup s) k (children x)"
        "listsInChildren x"
        by (auto simp: modelInv_def)
      then show ?thesis
        using keep iss by (auto intro: childrenOk_mono)
    qed
  qed
  with dist have "modelInv s'"
    by (simp add: modelInv_def)
  moreover have "rootPackage (model s') = rootPackage (model s)" "idCounter s \<le> idCounter s'"
    using t by (simp_all add: s' setElement_def)
  then have "extends s s'"
    unfolding extends_def
    using keep issi i not_issued_next [of s]
    by (auto simp: l split: if_splits)
  moreover have "\<exists>x. lookup s' i = Some x \<and> parent x = p"
    using e by (simp add: l)
  ultimately show "modelInv s' \<and> extends s s' \<and> (\<exists>e. lookup s' i = Some e \<and> parent e = p)"
    by blast
qed

subsection \<open>What the loops keep of an element under construction\<close>

definition sameNode :: "SysMLElement \<Rightarrow> SysMLElement \<Rightarrow> bool" where
  "sameNode x x' =
     (name x' = name x \<and> elem_id x' = elem_id x \<and> parent x' = parent x
      \<and> children x' = children x \<and> listsInChildren x' = listsInChildren x)"

lemma sameNode_refl [simp]: "sameNode x x"
  by (simp add: sameNode_def)

lemma sameNode_trans: "sameNode a b \<Longrightarrow> sameNode b c \<Longrightarrow> sameNode a c"
  by (simp add: sameNode_def)

lemma sameNode_pushItem [simp]: "sameNode x (onVariant (pushItem v) x)"
  by (cases "variant x") (simp_all add: sameNode_def onVariant_def listsInChildren_def)

lemma sameNode_setReqId [simp]: "sameNode x (onVariant (setReqId v) x)"
  by (cases "variant x") (simp_all add: sameNode_def onVariant_def listsInChildren_def)

lemma sameNode_setReqText [simp]: "sameNode x (onVariant (setReqText v) x)"
  by (cases "variant x") (simp_all add: sameNode_def onVariant_def listsInChildren_def)

lemma sameNode_setEntryAction [simp]: "sameNode x (onVariant (setEntryAction v) x)"
  by (cases "variant x") (simp_all add: sameNode_def onVariant_def listsInChildren_def)

lemmas model_dest = sameModel_expect sameModel_match

lemma generateId_cases:
  assumes "generateId s = (i, s')"
  obtains "i = mkId (Suc (idCounter s))" and "model s' = model s"
    and "idCounter s' = Suc (idCounter s)"
  using assms by (auto simp: generateId_mkId)

lemma leaf_parsePort: "parsePort p s = Inr (i, s') \<Longrightarrow> leaf (Some p) s i s'"
  unfolding parsePort_def
  apply (simp split: sum.splits prod.splits bool.splits)
   apply (auto dest!: model_dest elim!: generateId_cases intro!: leafI
      simp: sameModel_def listsInChildren_def)
  done

lemma leaf_parsePart: "parsePart p s = Inr (i, s') \<Longrightarrow> leaf (Some p) s i s'"
  unfolding parsePart_def
  apply (simp split: sum.splits prod.splits bool.splits)
    apply (auto dest!: model_dest elim!: generateId_cases intro!: leafI
      simp: sameModel_def listsInChildren_def)
  done
lemma sameModel_skipBodyLoop: "sameModel s (skipBodyLoop s)"
proof (induction s rule: skipBodyLoop.induct)
  case (1 s)
  show ?case
  proof (cases "inBody s")
    case True
    with 1 have "sameModel (snd (advance s)) (skipBodyLoop s)"
      by (subst skipBodyLoop.simps) simp
    then show ?thesis
      by (blast intro: sameModel_trans sameModel_advance)
  next
    case False
    then show ?thesis by (subst skipBodyLoop.simps) simp
  qed
qed

lemma sameModel_skipStatementLoop: "sameModel s (skipStatementLoop s)"
proof (induction s rule: skipStatementLoop.induct)
  case (1 s)
  show ?case
  proof (cases "inStatement s")
    case True
    with 1 have "sameModel (snd (advance s)) (skipStatementLoop s)"
      by (subst skipStatementLoop.simps) simp
    then show ?thesis
      by (blast intro: sameModel_trans sameModel_advance)
  next
    case False
    then show ?thesis by (subst skipStatementLoop.simps) simp
  qed
qed

lemma model_skipBodyLoop [simp]: "model (skipBodyLoop s) = model s"
  and idCounter_skipBodyLoop [simp]: "idCounter (skipBodyLoop s) = idCounter s"
  using sameModel_skipBodyLoop [of s] by (simp_all add: sameModel_def)

lemma model_skipStatementLoop [simp]: "model (skipStatementLoop s) = model s"
  and idCounter_skipStatementLoop [simp]: "idCounter (skipStatementLoop s) = idCounter s"
  using sameModel_skipStatementLoop [of s] by (simp_all add: sameModel_def)

lemma sameModel_actionBodyLoop: "actionBodyLoop s = Some s' \<Longrightarrow> sameModel s s'"
proof (induction rule: actionBodyLoop.raw_induct [rotated 1, consumes 1])
  case (1 loop s s')
  show ?case
  proof (cases "check RBRACE None s")
    case True
    with 1(2) show ?thesis by simp
  next
    case False
    with 1(2) have "loop (snd (advance s)) = Some s'" by simp
    from 1(1) [OF this] show ?thesis
      by (blast intro: sameModel_trans sameModel_advance)
  qed
qed

lemma sameModel_qualifiedNameLoop: "qualifiedNameLoop nm s = Inr (r, s') \<Longrightarrow> sameModel s s'"
proof (induction nm s rule: qualifiedNameLoop.induct)
  case (1 nm s)
  show ?case
  proof (cases "match DOT None s")
    case (Pair b s1)
    show ?thesis
    proof (cases b)
      case True
      with Pair "1.prems" obtain t s2 where
        e: "expect IDENTIFIER None s1 = Inr (t, s2)"
        and r: "qualifiedNameLoop (nm @ ''.'' @ tvalue t) s2 = Inr (r, s')"
        by (subst (asm) qualifiedNameLoop.simps) (auto split: sum.splits)
      from "1.IH" [of b s1 "(t, s2)" t s2] Pair True e r have "sameModel s2 s'" by simp
      moreover from Pair have "sameModel s s1" by (rule sameModel_match)
      moreover from e have "sameModel s1 s2" by (rule sameModel_expect)
      ultimately show ?thesis by (blast intro: sameModel_trans)
    next
      case False
      with Pair "1.prems" have "s' = s1"
        by (subst (asm) qualifiedNameLoop.simps) auto
      with Pair show ?thesis by (blast dest: sameModel_match)
    qed
  qed
qed

lemma sameModel_parseQualifiedName: "parseQualifiedName s = Inr (r, s') \<Longrightarrow> sameModel s s'"
  by (auto simp: parseQualifiedName_def split: sum.splits
      dest!: sameModel_expect sameModel_qualifiedNameLoop intro: sameModel_trans)

lemma keeps_portDefBodyStep:
  "portDefBodyStep x s = Inr (x', s') \<Longrightarrow> sameModel s s' \<and> sameNode x x'"
  unfolding portDefBodyStep_def
  apply (simp split: sum.splits prod.splits bool.splits if_splits)
   apply (auto dest!: model_dest simp: sameModel_def advance_def)
  done

lemma keeps_portDefBodyLoop:
  assumes "portDefBodyLoop x s = Inr (x', s')"
  shows "sameModel s s' \<and> sameNode x x'"
  by (rule portDefBodyLoop_rule [OF assms, where I = "\<lambda>y t. sameModel s t \<and> sameNode x y"])
    (auto dest!: keeps_portDefBodyStep intro: sameModel_trans sameNode_trans)

lemma keeps_requirementDefBodyStep:
  "requirementDefBodyStep x s = Inr (x', s') \<Longrightarrow> sameModel s s' \<and> sameNode x x'"
  unfolding requirementDefBodyStep_def
  apply (simp split: sum.splits prod.splits bool.splits if_splits)
    apply (auto dest!: model_dest simp: sameModel_def advance_def)
  done

lemma keeps_requirementDefBodyLoop:
  assumes "requirementDefBodyLoop x s = Inr (x', s')"
  shows "sameModel s s' \<and> sameNode x x'"
  by (rule requirementDefBodyLoop_rule
      [OF assms, where I = "\<lambda>y t. sameModel s t \<and> sameNode x y"])
    (auto dest!: keeps_requirementDefBodyStep intro: sameModel_trans sameNode_trans)

lemma keeps_stateBodyStep:
  "stateBodyStep x s = Some (Inr (x', s')) \<Longrightarrow> sameModel s s' \<and> sameNode x x'"
  unfolding stateBodyStep_def
  apply (simp split: sum.splits prod.splits bool.splits if_splits option.splits)
   apply (auto dest!: model_dest sameModel_actionBodyLoop simp: sameModel_def advance_def)
  done

lemma keeps_stateBodyLoop:
  assumes "stateBodyLoop x s = Some (Inr (x', s'))"
  shows "sameModel s s' \<and> sameNode x x'"
  by (rule stateBodyLoop_rule [OF assms, where I = "\<lambda>y t. sameModel s t \<and> sameNode x y"])
    (auto dest!: keeps_stateBodyStep intro: sameModel_trans sameNode_trans)

lemma sameModel_transitionStep: "transitionStep v s = Inr (v', s') \<Longrightarrow> sameModel s s'"
  unfolding transitionStep_def
  apply (simp split: sum.splits prod.splits bool.splits)
  apply (auto dest!: model_dest simp: sameModel_def advance_def)
  done

lemma sameModel_transitionLoop:
  assumes "transitionLoop v s = Inr (v', s')"
  shows "sameModel s s'"
  by (rule transitionLoop_rule [OF assms, where I = "\<lambda>y t. sameModel s t"])
    (auto dest!: sameModel_transitionStep intro: sameModel_trans)

lemma leaf_parseItemDef: "parseItemDef p s = Inr (i, s') \<Longrightarrow> leaf (Some p) s i s'"
  unfolding parseItemDef_def
  apply (simp split: sum.splits prod.splits bool.splits)
   apply (auto dest!: model_dest elim!: generateId_cases intro!: leafI
      simp: sameModel_def listsInChildren_def)
  done

lemma leaf_parsePortDef: "parsePortDef p s = Inr (i, s') \<Longrightarrow> leaf (Some p) s i s'"
  unfolding parsePortDef_def
  apply (simp split: sum.splits prod.splits bool.splits)
   apply (auto dest!: model_dest keeps_portDefBodyLoop elim!: generateId_cases intro!: leafI
      simp: sameModel_def sameNode_def listsInChildren_def)
  done

lemma leaf_parseRequirementDef: "parseRequirementDef p s = Inr (i, s') \<Longrightarrow> leaf (Some p) s i s'"
  unfolding parseRequirementDef_def
  apply (simp split: sum.splits prod.splits bool.splits)
   apply (auto dest!: model_dest keeps_requirementDefBodyLoop elim!: generateId_cases
      intro!: leafI simp: sameModel_def sameNode_def listsInChildren_def)
  done

lemma leaf_parseTransition: "parseTransition p s = Inr (i, s') \<Longrightarrow> leaf (Some p) s i s'"
  unfolding parseTransition_def
  apply (simp split: sum.splits prod.splits bool.splits)
  apply (auto dest!: model_dest sameModel_transitionLoop elim!: generateId_cases intro!: leafI
      simp: sameModel_def listsInChildren_def)
  done

lemma leaf_parseBind: "parseBind p s = Inr (i, s') \<Longrightarrow> leaf (Some p) s i s'"
  unfolding parseBind_def
  apply (simp split: sum.splits prod.splits bool.splits)
  apply (auto dest!: model_dest sameModel_parseQualifiedName elim!: generateId_cases
      intro!: leafI simp: sameModel_def listsInChildren_def)
  done

lemma leaf_parseConnection:
  "parseConnection p s = Inr (Some i, s') \<Longrightarrow> leaf (Some p) s i s'"
  unfolding parseConnection_def
  apply (simp split: sum.splits prod.splits bool.splits)
  apply (auto dest!: model_dest sameModel_parseQualifiedName elim!: generateId_cases
      intro!: leafI simp: sameModel_def listsInChildren_def)
  done

lemma sameModel_parseConnection_None:
  "parseConnection p s = Inr (None, s') \<Longrightarrow> sameModel s s'"
  unfolding parseConnection_def
  apply (simp split: sum.splits prod.splits bool.splits)
  apply (auto dest!: model_dest simp: sameModel_def)
  done

lemma leaf_parseState: "parseState p s = Some (Inr (i, s')) \<Longrightarrow> leaf (Some p) s i s'"
  unfolding parseState_def
  apply (simp split: sum.splits prod.splits bool.splits option.splits)
   apply (auto dest!: model_dest keeps_stateBodyLoop elim!: generateId_cases intro!: leafI
      simp: sameModel_def sameNode_def listsInChildren_def)
  done
subsection \<open>Productions that add an element with children\<close>

text \<open>
  \<open>pending i p t y\<close>: \<open>y\<close> is an element under construction with id \<open>i\<close> and parent \<open>p\<close>
  whose children so far are in the map of \<open>t\<close>, with parent \<open>i\<close>.
\<close>

definition pending :: "string \<Rightarrow> string option \<Rightarrow> SysMLParser \<Rightarrow> SysMLElement \<Rightarrow> bool" where
  "pending i p t y =
     (elem_id y = i \<and> parent y = p \<and> childrenOk (lookup t) i (children y)
      \<and> listsInChildren y)"

lemma modelInv_bump:
  assumes "modelInv s" and "model s' = model s" and "idCounter s \<le> idCounter s'"
  shows "modelInv s'"
proof -
  have "lookup s' = lookup s"
    using assms(2) by (simp add: lookup_def fun_eq_iff)
  with assms show ?thesis
    unfolding modelInv_def by (metis issued_mono)
qed

lemma extends_keep: "extends s s' \<Longrightarrow> lookup s k = Some e \<Longrightarrow> lookup s' k = Some e"
  by (simp add: extends_def)

lemma childrenOk_extends: "childrenOk (lookup t) i cs \<Longrightarrow> extends t t' \<Longrightarrow> childrenOk (lookup t') i cs"
  by (auto intro: childrenOk_mono extends_keep)

lemma childrenOk_snoc:
  "childrenOk m i cs \<Longrightarrow> m c = Some e \<Longrightarrow> parent e = Some i \<Longrightarrow> childrenOk m i (cs @ [c])"
  by (auto simp: childrenOk_def)

lemma pending_step:
  assumes "pending i p t y" and "extends t t'" and "lookup t' c = Some e" and "parent e = Some i"
    and "listsInChildren y'" and "children y' = children y @ [c]"
    and "elem_id y' = elem_id y" and "parent y' = parent y"
  shows "pending i p t' y'"
  using assms unfolding pending_def
  by (auto intro: childrenOk_snoc childrenOk_extends)

lemma pending_sameModel: "pending i p t y \<Longrightarrow> sameModel t t' \<Longrightarrow> pending i p t' y"
  by (simp add: pending_def sameModel_lookup)

lemma subseq_snoc: "subseq xs ys \<Longrightarrow> subseq xs (ys @ [c])"
  by (metis append_Nil2 list_emb_append_mono list_emb_Nil)

lemma subseq_snoc_both: "subseq xs ys \<Longrightarrow> subseq (xs @ [c]) (ys @ [c])"
  by (simp add: list_emb_append_mono)

lemma fields_pushChild [simp]:
  "children (pushChild c y) = children y @ [c]" "elem_id (pushChild c y) = elem_id y"
  "parent (pushChild c y) = parent y" "variant (pushChild c y) = variant y"
  "name (pushChild c y) = name y"
  by (simp_all add: pushChild_def)

lemma fields_onVariant [simp]:
  "children (onVariant f y) = children y" "elem_id (onVariant f y) = elem_id y"
  "parent (onVariant f y) = parent y" "variant (onVariant f y) = f (variant y)"
  "name (onVariant f y) = name y"
  by (simp_all add: onVariant_def)

lemma listsInChildren_pushChild: "listsInChildren y \<Longrightarrow> listsInChildren (pushChild c y)"
  by (cases "variant y") (auto simp: listsInChildren_def intro: subseq_snoc)

lemma listsInChildren_pushPort:
  "listsInChildren y \<Longrightarrow> listsInChildren (pushChild c (onVariant (pushPort c) y))"
  by (cases "variant y") (auto simp: listsInChildren_def intro: subseq_snoc subseq_snoc_both)

lemma listsInChildren_pushPart:
  "listsInChildren y \<Longrightarrow> listsInChildren (pushChild c (onVariant (pushPart c) y))"
  by (cases "variant y") (auto simp: listsInChildren_def intro: subseq_snoc subseq_snoc_both)

lemma listsInChildren_pushState:
  "listsInChildren y \<Longrightarrow> listsInChildren (pushChild c (onVariant (pushState c) y))"
  by (cases "variant y") (auto simp: listsInChildren_def intro: subseq_snoc subseq_snoc_both)

lemma listsInChildren_pushTransition:
  "listsInChildren y \<Longrightarrow> listsInChildren (pushChild c (onVariant (pushTransition c) y))"
  by (cases "variant y") (auto simp: listsInChildren_def intro: subseq_snoc subseq_snoc_both)

lemmas listsInChildren_push = listsInChildren_pushChild listsInChildren_pushPort
  listsInChildren_pushPart listsInChildren_pushState listsInChildren_pushTransition

text \<open>
  What one iteration of a body loop does to the invariant, given that the production it
  called \<open>produces\<close> the child it pushes.
\<close>

lemma push_step:
  assumes "produces (Some i) t c t'" and "modelInv t" and "pending i p t y"
    and "listsInChildren y'" and "children y' = children y @ [c]"
    and "elem_id y' = elem_id y" and "parent y' = parent y"
  shows "modelInv t' \<and> extends t t' \<and> pending i p t' y'"
proof -
  from assms(1,2) obtain e where "modelInv t'" "extends t t'" "lookup t' c = Some e"
    "parent e = Some i"
    unfolding produces_def by blast
  with assms(3-) show ?thesis
    by (blast intro: pending_step)
qed

lemma skip_step:
  assumes "sameModel t t'" and "modelInv t" and "pending i p t y"
  shows "modelInv t' \<and> extends t t' \<and> pending i p t' y"
  using assms by (simp add: sameModel_modelInv sameModel_extends pending_sameModel)

lemma container_produces:
  assumes inv: "modelInv s" and i: "i = mkId (Suc (idCounter s))"
    and s1: "model s1 = model s" "idCounter s1 = Suc (idCounter s)"
    and ext: "extends s1 t" and invt: "modelInv t" and pend: "pending i p t x"
  shows "modelInv (setElement i x t) \<and> extends s (setElement i x t)
     \<and> (\<exists>e. lookup (setElement i x t) i = Some e \<and> parent e = p)"
proof -
  let ?s' = "setElement i x t"
  have ls1: "lookup s1 = lookup s"
    using s1 by (simp add: lookup_def fun_eq_iff)
  have ni: "\<not> issued s i" and i1: "issued s1 i"
    using i s1 by (auto simp: issued_def)
  have iss1: "\<And>k. issued s k \<Longrightarrow> issued s1 k"
    using s1 by (auto simp: issued_def)
  have it: "issued t i"
    using i1 ext by (auto simp: extends_def intro: issued_mono)
  have fresh: "lookup s i = None"
    using inv ni by (rule modelInv_fresh)
  have fresht: "lookup t i = None"
  proof (cases "lookup t i")
    case (Some e)
    with ext have "lookup s1 i = Some e \<or> (issued t i \<and> \<not> issued s1 i)"
      unfolding extends_def by blast
    with fresh ls1 i1 show ?thesis by simp
  qed simp
  have l: "\<And>k. lookup ?s' k = (if k = i then Some x else lookup t k)"
    by (simp add: lookup_setElement)
  have keep: "\<And>c e. lookup t c = Some e \<Longrightarrow> lookup ?s' c = Some e"
    using fresht by (auto simp: l)
  have dist: "distinct (map fst (elements (model ?s')))"
    using invt by (simp add: setElement_def modelInv_def distinct_update)
  have "\<forall>k e. lookup ?s' k = Some e \<longrightarrow>
      elem_id e = k \<and> issued ?s' k \<and> childrenOk (lookup ?s') k (children e)
        \<and> listsInChildren e"
  proof (intro allI impI)
    fix k e
    assume "lookup ?s' k = Some e"
    then consider "k = i" "e = x" | "k \<noteq> i" "lookup t k = Some e"
      by (auto simp: l split: if_splits)
    then show "elem_id e = k \<and> issued ?s' k \<and> childrenOk (lookup ?s') k (children e)
        \<and> listsInChildren e"
    proof cases
      case 1
      with pend it keep show ?thesis
        by (auto simp: pending_def intro: childrenOk_mono)
    next
      case 2
      with invt have "elem_id e = k" "issued t k" "childrenOk (lookup t) k (children e)"
        "listsInChildren e"
        by (auto simp: modelInv_def)
      then show ?thesis
        using keep by (auto intro: childrenOk_mono)
    qed
  qed
  with dist have a: "modelInv ?s'"
    by (simp add: modelInv_def)
  have "idCounter s \<le> idCounter ?s'" "rootPackage (model ?s') = rootPackage (model s)"
    using ext s1 by (simp_all add: extends_def setElement_def)
  moreover have "\<And>k e. lookup s k = Some e \<Longrightarrow> lookup ?s' k = Some e"
    using ext ls1 keep by (auto simp: extends_def)
  moreover have "\<And>k e. lookup ?s' k = Some e \<Longrightarrow>
      lookup s k = Some e \<or> (issued ?s' k \<and> \<not> issued s k)"
  proof -
    fix k e
    assume a: "lookup ?s' k = Some e"
    show "lookup s k = Some e \<or> (issued ?s' k \<and> \<not> issued s k)"
    proof (cases "k = i")
      case True
      with it ni show ?thesis by simp
    next
      case False
      with a have "lookup t k = Some e" by (simp add: l)
      with ext have "lookup s1 k = Some e \<or> (issued t k \<and> \<not> issued s1 k)"
        unfolding extends_def by blast
      with ls1 iss1 show ?thesis by auto
    qed
  qed
  ultimately have b: "extends s ?s'"
    unfolding extends_def by blast
  have "\<exists>e. lookup ?s' i = Some e \<and> parent e = p"
    using pend by (simp add: l pending_def)
  with a b show ?thesis by blast
qed

subsection \<open>State definitions\<close>

lemma stateDefBodyStep_cases:
  assumes "stateDefBodyStep p y s = Some (Inr (y', s'))"
  obtains
    (state) c where "parseState p s = Some (Inr (c, s'))"
      and "y' = pushChild c (onVariant (pushState c) y)"
  | (transition) c where "parseTransition p s = Inr (c, s')"
      and "y' = pushChild c (onVariant (pushTransition c) y)"
  | (other) "sameModel s s'" and "y' = y"
  using assms unfolding stateDefBodyStep_def
  apply (simp split: if_splits)
     apply (auto split: sum.splits option.splits prod.splits bool.splits
      dest!: model_dest simp: sameModel_def advance_def)
  done

lemma stateDefBodyStep_inv:
  assumes "stateDefBodyStep i y t = Some (Inr (y', t'))" and "modelInv t" and "pending i p t y"
  shows "modelInv t' \<and> extends t t' \<and> pending i p t' y'"
  using assms(1)
proof (cases rule: stateDefBodyStep_cases)
  case (state c)
  from state(1) have pr: "produces (Some i) t c t'"
    by (blast intro: leaf_produces leaf_parseState)
  show ?thesis
    by (rule push_step [OF pr assms(2,3)])
      (use assms(3) in \<open>simp_all add: state(2) pending_def listsInChildren_push\<close>)
next
  case (transition c)
  from transition(1) have pr: "produces (Some i) t c t'"
    by (blast intro: leaf_produces leaf_parseTransition)
  show ?thesis
    by (rule push_step [OF pr assms(2,3)])
      (use assms(3) in \<open>simp_all add: transition(2) pending_def listsInChildren_push\<close>)
next
  case other
  with assms(2,3) show ?thesis by (simp add: skip_step)
qed

lemma parseStateDefBody_inv:
  assumes "parseStateDefBody i x s = Some (Inr (x', s'))" and "modelInv s" and "pending i p s x"
  shows "modelInv s' \<and> extends s s' \<and> pending i p s' x'"
  by (rule parseStateDefBody_rule
      [OF assms(1), where I = "\<lambda>y t. modelInv t \<and> extends s t \<and> pending i p t y"])
    (use assms(2,3) in \<open>auto dest: stateDefBodyStep_inv intro: extends_trans\<close>)
lemma parseStateDef_cases:
  assumes "parseStateDef p s = Some (Inr (i, s'))"
  obtains
    (body) nm s5 x1 s6 s7 where "i = mkId (Suc (idCounter s))" and "model s5 = model s"
      and "idCounter s5 = Suc (idCounter s)"
      and "parseStateDefBody i
             \<lparr>name = nm, elem_id = i, parent = Some p, children = [], variant = StateDef [] []\<rparr>
             s5 = Some (Inr (x1, s6))"
      and "sameModel s6 s7" and "s' = setElement i x1 s7"
  | (nobody) nm t where "i = mkId (Suc (idCounter s))" and "model t = model s"
      and "idCounter t = Suc (idCounter s)"
      and "s' = setElement i
             \<lparr>name = nm, elem_id = i, parent = Some p, children = [], variant = StateDef [] []\<rparr>
             t"
proof -
  from assms obtain a s1 b s2 nameTok s3 i' s4 where
    e1: "expect KEYWORD (Some ''state'') s = Inr (a, s1)"
    and e2: "expect KEYWORD (Some ''def'') s1 = Inr (b, s2)"
    and e3: "expect IDENTIFIER None s2 = Inr (nameTok, s3)"
    and g: "generateId s3 = (i', s4)"
    unfolding parseStateDef_def
    by (auto split: sum.splits prod.splits)
  from e1 e2 e3 have m3: "model s3 = model s" "idCounter s3 = idCounter s"
    by (auto dest!: sameModel_expect simp: sameModel_def)
  from g m3 have i': "i' = mkId (Suc (idCounter s))" and m4: "model s4 = model s"
    "idCounter s4 = Suc (idCounter s)"
    by (auto elim!: generateId_cases)
  obtain bb s5 where ma: "match LBRACE None s4 = (bb, s5)"
    by (cases "match LBRACE None s4")
  then have m5: "model s5 = model s" "idCounter s5 = Suc (idCounter s)"
    using m4 by (auto dest!: sameModel_match simp: sameModel_def)
  show thesis
  proof (cases bb)
    case True
    with assms e1 e2 e3 g ma obtain x1 s6 c s7 where
      "parseStateDefBody i'
         \<lparr>name = tvalue nameTok, elem_id = i', parent = Some p, children = [],
           variant = StateDef [] []\<rparr> s5 = Some (Inr (x1, s6))"
      and "expect RBRACE None s6 = Inr (c, s7)" and "i = i'" and "s' = setElement i' x1 s7"
      unfolding parseStateDef_def
      by (auto split: sum.splits option.splits)
    with i' m5 show ?thesis
      by (auto intro!: body dest: sameModel_expect)
  next
    case False
    with assms e1 e2 e3 g ma have "i = i'"
      and "s' = setElement i'
         \<lparr>name = tvalue nameTok, elem_id = i', parent = Some p, children = [],
           variant = StateDef [] []\<rparr> s5"
      unfolding parseStateDef_def
      by auto
    with i' m5 show ?thesis
      by (auto intro!: nobody)
  qed
qed

lemma pending_new:
  "pending i p t \<lparr>name = nm, elem_id = i, parent = p, children = [], variant = v\<rparr>
     \<longleftrightarrow> (case v of PartDef ps qs \<Rightarrow> ps = [] \<and> qs = []
                    | StateDef ss ts \<Rightarrow> ss = [] \<and> ts = [] | _ \<Rightarrow> True)"
  by (cases v) (auto simp: pending_def listsInChildren_def)

lemma produces_parseStateDef:
  assumes "parseStateDef p s = Some (Inr (i, s'))"
  shows "produces (Some p) s i s'"
  using assms
proof (cases rule: parseStateDef_cases)
  case (body nm s5 x1 s6 s7)
  show ?thesis
    unfolding produces_def
  proof
    assume inv: "modelInv s"
    then have "modelInv s5"
      using body(2,3) by (auto intro: modelInv_bump)
    with body(4) have "modelInv s6 \<and> extends s5 s6 \<and> pending i (Some p) s6 x1"
      by (rule parseStateDefBody_inv) (simp add: pending_new)
    with body(5) have "extends s5 s7" "modelInv s7" "pending i (Some p) s7 x1"
      by (auto simp: sameModel_modelInv pending_sameModel
          intro: extends_trans sameModel_extends)
    with inv body(1,2,3) show "modelInv s' \<and> extends s s'
        \<and> (\<exists>e. lookup s' i = Some e \<and> parent e = Some p)"
      unfolding body(6) by (intro container_produces)
  qed
next
  case (nobody nm t)
  then have "leaf (Some p) s i s'"
    by (auto intro!: leafI simp: listsInChildren_def)
  then show ?thesis by (rule leaf_produces)
qed

subsection \<open>Part definitions\<close>

lemma partDefBodyStep_inv:
  assumes "partDefBodyStep i y t = Some (Inr (y', t'))" and "modelInv t" and "pending i p t y"
  shows "modelInv t' \<and> extends t t' \<and> pending i p t' y'"
  using assms(1)
proof (cases rule: partDefBodyStep_cases)
  case (port c)
  from port(1) have pr: "produces (Some i) t c t'"
    by (blast intro: leaf_produces leaf_parsePort)
  show ?thesis
    by (rule push_step [OF pr assms(2,3)])
      (use assms(3) in \<open>simp_all add: port(2) pending_def listsInChildren_push\<close>)
next
  case (part c)
  from part(1) have pr: "produces (Some i) t c t'"
    by (blast intro: leaf_produces leaf_parsePart)
  show ?thesis
    by (rule push_step [OF pr assms(2,3)])
      (use assms(3) in \<open>simp_all add: part(2) pending_def listsInChildren_push\<close>)
next
  case (stateDef c)
  from stateDef(1) have pr: "produces (Some i) t c t'"
    by (rule produces_parseStateDef)
  show ?thesis
    by (rule push_step [OF pr assms(2,3)])
      (use assms(3) in \<open>simp_all add: stateDef(2) pending_def listsInChildren_push\<close>)
next
  case skipped
  from skipped(1) have "sameModel t t'"
    by (rule sameModel_parseConnection_None)
  with assms(2,3) skipped(2) show ?thesis by (simp add: skip_step)
next
  case (connection c)
  from connection(1) have pr: "produces (Some i) t c t'"
    by (blast intro: leaf_produces leaf_parseConnection)
  show ?thesis
    by (rule push_step [OF pr assms(2,3)])
      (use assms(3) in \<open>simp_all add: connection(2) pending_def listsInChildren_push\<close>)
next
  case (bind c)
  from bind(1) have pr: "produces (Some i) t c t'"
    by (blast intro: leaf_produces leaf_parseBind)
  show ?thesis
    by (rule push_step [OF pr assms(2,3)])
      (use assms(3) in \<open>simp_all add: bind(2) pending_def listsInChildren_push\<close>)
next
  case other
  have "sameModel t t'"
    by (simp add: other(1))
  with assms(2,3) other(2) show ?thesis by (simp add: skip_step)
qed

lemma parsePartDefBody_inv:
  assumes "parsePartDefBody i x s = Some (Inr (x', s'))" and "modelInv s" and "pending i p s x"
  shows "modelInv s' \<and> extends s s' \<and> pending i p s' x'"
  by (rule parsePartDefBody_rule
      [OF assms(1), where I = "\<lambda>y t. modelInv t \<and> extends s t \<and> pending i p t y"])
    (use assms(2,3) in \<open>auto dest: partDefBodyStep_inv intro: extends_trans\<close>)

lemma parsePartDef_cases:
  assumes "parsePartDef p s = Some (Inr (i, s'))"
  obtains
    (body) nm s5 x1 s6 s7 where "i = mkId (Suc (idCounter s))" and "model s5 = model s"
      and "idCounter s5 = Suc (idCounter s)"
      and "parsePartDefBody i
             \<lparr>name = nm, elem_id = i, parent = Some p, children = [], variant = PartDef [] []\<rparr>
             s5 = Some (Inr (x1, s6))"
      and "sameModel s6 s7" and "s' = setElement i x1 s7"
  | (nobody) nm t where "i = mkId (Suc (idCounter s))" and "model t = model s"
      and "idCounter t = Suc (idCounter s)"
      and "s' = setElement i
             \<lparr>name = nm, elem_id = i, parent = Some p, children = [], variant = PartDef [] []\<rparr>
             t"
proof -
  from assms obtain a s1 b s2 nameTok s3 i' s4 where
    e1: "expect KEYWORD (Some ''part'') s = Inr (a, s1)"
    and e2: "expect KEYWORD (Some ''def'') s1 = Inr (b, s2)"
    and e3: "expect IDENTIFIER None s2 = Inr (nameTok, s3)"
    and g: "generateId s3 = (i', s4)"
    unfolding parsePartDef_def
    by (auto split: sum.splits prod.splits)
  from e1 e2 e3 have m3: "model s3 = model s" "idCounter s3 = idCounter s"
    by (auto dest!: sameModel_expect simp: sameModel_def)
  from g m3 have i': "i' = mkId (Suc (idCounter s))" and m4: "model s4 = model s"
    "idCounter s4 = Suc (idCounter s)"
    by (auto elim!: generateId_cases)
  obtain bb s5 where ma: "match LBRACE None s4 = (bb, s5)"
    by (cases "match LBRACE None s4")
  then have m5: "model s5 = model s" "idCounter s5 = Suc (idCounter s)"
    using m4 by (auto dest!: sameModel_match simp: sameModel_def)
  show thesis
  proof (cases bb)
    case True
    with assms e1 e2 e3 g ma obtain x1 s6 c s7 where
      "parsePartDefBody i'
         \<lparr>name = tvalue nameTok, elem_id = i', parent = Some p, children = [],
           variant = PartDef [] []\<rparr> s5 = Some (Inr (x1, s6))"
      and "expect RBRACE None s6 = Inr (c, s7)" and "i = i'" and "s' = setElement i' x1 s7"
      unfolding parsePartDef_def
      by (auto split: sum.splits option.splits)
    with i' m5 show ?thesis
      by (auto intro!: body dest: sameModel_expect)
  next
    case False
    obtain cc s6 where mb: "match SEMICOLON None s5 = (cc, s6)"
      by (cases "match SEMICOLON None s5")
    then have m6: "model s6 = model s" "idCounter s6 = Suc (idCounter s)"
      using m5 by (auto dest!: sameModel_match simp: sameModel_def)
    from False assms e1 e2 e3 g ma mb have "i = i'"
      and "s' = setElement i'
         \<lparr>name = tvalue nameTok, elem_id = i', parent = Some p, children = [],
           variant = PartDef [] []\<rparr> s6"
      unfolding parsePartDef_def
      by auto
    with i' m6 show ?thesis
      by (auto intro!: nobody)
  qed
qed

lemma produces_parsePartDef:
  assumes "parsePartDef p s = Some (Inr (i, s'))"
  shows "produces (Some p) s i s'"
  using assms
proof (cases rule: parsePartDef_cases)
  case (body nm s5 x1 s6 s7)
  show ?thesis
    unfolding produces_def
  proof
    assume inv: "modelInv s"
    then have "modelInv s5"
      using body(2,3) by (auto intro: modelInv_bump)
    with body(4) have "modelInv s6 \<and> extends s5 s6 \<and> pending i (Some p) s6 x1"
      by (rule parsePartDefBody_inv) (simp add: pending_new)
    with body(5) have "extends s5 s7" "modelInv s7" "pending i (Some p) s7 x1"
      by (auto simp: sameModel_modelInv pending_sameModel
          intro: extends_trans sameModel_extends)
    with inv body(1,2,3) show "modelInv s' \<and> extends s s'
        \<and> (\<exists>e. lookup s' i = Some e \<and> parent e = Some p)"
      unfolding body(6) by (intro container_produces)
  qed
next
  case (nobody nm t)
  then have "leaf (Some p) s i s'"
    by (auto intro!: leafI simp: listsInChildren_def)
  then show ?thesis by (rule leaf_produces)
qed
subsection \<open>Packages and parse\<close>

lemma lookup_pushChildOf:
  "lookup (pushChildOf p c t) k
     = (if k = p then map_option (pushChild c) (lookup t p) else lookup t k)"
  by (simp add: lookup_def pushChildOf_def map_of_map_entry split: option.splits)

lemma modelInv_pushChildOf:
  assumes inv: "modelInv t" and c: "lookup t c = Some e" "parent e = Some p"
  shows "modelInv (pushChildOf p c t)"
proof -
  let ?t' = "pushChildOf p c t"
  have dist: "distinct (map fst (elements (model ?t')))"
    using inv by (simp add: modelInv_def pushChildOf_def distinct_map_entry)
  have iss: "issued ?t' = issued t"
    by (simp add: issued_def pushChildOf_def fun_eq_iff)
  have keep: "\<And>k x. lookup t k = Some x \<Longrightarrow> \<exists>x'. lookup ?t' k = Some x' \<and> parent x' = parent x"
    by (auto simp: lookup_pushChildOf)
  have ok: "\<And>k cs. childrenOk (lookup t) k cs \<Longrightarrow> childrenOk (lookup ?t') k cs"
    unfolding childrenOk_def using keep by metis
  have "\<forall>k x. lookup ?t' k = Some x \<longrightarrow>
      elem_id x = k \<and> issued ?t' k \<and> childrenOk (lookup ?t') k (children x)
        \<and> listsInChildren x"
  proof (intro allI impI)
    fix k x
    assume "lookup ?t' k = Some x"
    then consider x0 where "k = p" "lookup t p = Some x0" "x = pushChild c x0"
      | "k \<noteq> p" "lookup t k = Some x"
      by (auto simp: lookup_pushChildOf split: if_splits)
    then show "elem_id x = k \<and> issued ?t' k \<and> childrenOk (lookup ?t') k (children x)
        \<and> listsInChildren x"
    proof cases
      case 1
      with inv have a: "elem_id x0 = p" "issued t p" "childrenOk (lookup t) p (children x0)"
        "listsInChildren x0"
        by (auto simp: modelInv_def)
      from keep [OF c(1)] c(2) obtain e' where "lookup ?t' c = Some e'" "parent e' = Some p"
        by auto
      with a ok [OF a(3)] 1 show ?thesis
        by (auto simp: iss intro: childrenOk_snoc listsInChildren_pushChild)
    next
      case 2
      with inv have "elem_id x = k" "issued t k" "childrenOk (lookup t) k (children x)"
        "listsInChildren x"
        by (auto simp: modelInv_def)
      then show ?thesis
        using ok by (simp add: iss)
    qed
  qed
  with dist show ?thesis
    by (simp add: modelInv_def)
qed

lemma modelInv_push_produced:
  assumes "produces (Some p) t c t1" and "modelInv t"
  shows "modelInv (pushChildOf p c t1)"
  using assms unfolding produces_def
  by (blast intro: modelInv_pushChildOf)

lemma packageBodyStep_inv:
  assumes "packageBodyStep p t = Some (Inr (u, t'))" and "modelInv t"
  shows "modelInv t'"
  using assms(1)
proof (cases rule: packageBodyStep_cases)
  case (itemDef i s1)
  then show ?thesis
    using assms(2) by (blast intro: modelInv_push_produced leaf_produces leaf_parseItemDef)
next
  case (portDef i s1)
  then show ?thesis
    using assms(2) by (blast intro: modelInv_push_produced leaf_produces leaf_parsePortDef)
next
  case (partDef i s1)
  then show ?thesis
    using assms(2) by (blast intro: modelInv_push_produced produces_parsePartDef)
next
  case (part i s1)
  then show ?thesis
    using assms(2) by (blast intro: modelInv_push_produced leaf_produces leaf_parsePart)
next
  case (requirementDef i s1)
  then show ?thesis
    using assms(2)
    by (blast intro: modelInv_push_produced leaf_produces leaf_parseRequirementDef)
next
  case (stateDef i s1)
  then show ?thesis
    using assms(2) by (blast intro: modelInv_push_produced produces_parseStateDef)
next
  case skipped
  then show ?thesis
    using assms(2) by (auto dest: sameModel_parseConnection_None simp: sameModel_modelInv)
next
  case (connection i s1)
  then show ?thesis
    using assms(2) by (blast intro: modelInv_push_produced leaf_produces leaf_parseConnection)
next
  case (bind i s1)
  then show ?thesis
    using assms(2) by (blast intro: modelInv_push_produced leaf_produces leaf_parseBind)
next
  case other
  have "sameModel t t'"
    by (simp add: other)
  with assms(2) show ?thesis by (simp add: sameModel_modelInv)
qed

lemma parsePackageBody_rule:
  assumes "parsePackageBody p s = Some (Inr (u, s'))" and "I s"
    and "\<And>s u t. I s \<Longrightarrow> inBody s \<Longrightarrow> packageBodyStep p s = Some (Inr (u, t)) \<Longrightarrow> I t"
  shows "I s'"
  using assms
proof (induction p s rule: parsePackageBody.induct)
  case (1 p s)
  note step = "1.prems"(3)
  show ?case
  proof (cases "inBody s")
    case True
    with "1.prems"(1) obtain v t where st: "packageBodyStep p s = Some (Inr (v, t))"
      and r: "parsePackageBody p t = Some (Inr (u, s'))"
      by (subst (asm) parsePackageBody.simps) (auto split: sum.splits option.splits)
    from step [OF "1.prems"(2) True st] have "I t" .
    with "1.IH" [of "Inr (v, t)" "(v, t)" v t] True st r step show ?thesis by simp
  next
    case False
    with "1.prems" show ?thesis by (subst (asm) parsePackageBody.simps) simp
  qed
qed

lemma parsePackageBody_inv:
  assumes "parsePackageBody p s = Some (Inr (u, s'))" and "modelInv s"
  shows "modelInv s'"
  by (rule parsePackageBody_rule [OF assms(1), where I = modelInv])
    (use assms(2) in \<open>auto dest: packageBodyStep_inv\<close>)

lemma modelInv_rootPackage [simp]:
  "modelInv (s\<lparr>model := (model s)\<lparr>rootPackage := r\<rparr>\<rparr>) = modelInv s"
proof -
  have "lookup (s\<lparr>model := (model s)\<lparr>rootPackage := r\<rparr>\<rparr>) = lookup s"
    by (simp add: lookup_def fun_eq_iff)
  then show ?thesis
    by (simp add: modelInv_def issued_def)
qed

lemma parsePackage_inv:
  assumes "parsePackage par s = Some (Inr (u, s'))" and inv: "modelInv s"
  shows "modelInv s'"
proof -
  from assms(1) obtain a s1 nameTok s2 i s3 where
    e1: "expect KEYWORD (Some ''package'') s = Inr (a, s1)"
    and e2: "expect IDENTIFIER None s1 = Inr (nameTok, s2)"
    and g: "generateId s2 = (i, s3)"
    unfolding parsePackage_def
    by (auto split: sum.splits prod.splits)
  let ?pkg = "\<lparr>name = tvalue nameTok, elem_id = i, parent = par, children = [],
      variant = Package\<rparr>"
  let ?s4 = "setElement i ?pkg s3"
  let ?s5 = "if par = None \<or> par = Some '''' then ?s4\<lparr>model := (model ?s4)\<lparr>rootPackage := Some i\<rparr>\<rparr>
      else ?s4"
  from assms(1) e1 e2 g obtain b s6 v s7 w where
    e3: "expect LBRACE None ?s5 = Inr (b, s6)"
    and body: "parsePackageBody i s6 = Some (Inr (v, s7))"
    and e4: "expect RBRACE None s7 = Inr (w, s')"
    unfolding parsePackage_def
    by (auto split: sum.splits option.splits)
  from e1 e2 have m2: "model s2 = model s" "idCounter s2 = idCounter s"
    by (auto dest!: sameModel_expect simp: sameModel_def)
  with g have "leaf par s i ?s4"
    by (auto elim!: generateId_cases intro!: leafI simp: listsInChildren_def)
  with inv have "modelInv ?s4"
    by (auto dest: leaf_produces simp: produces_def)
  then have "modelInv ?s5"
    by simp
  with e3 have "modelInv s6"
    by (auto dest: sameModel_expect simp: sameModel_modelInv)
  with body have "modelInv s7"
    by (rule parsePackageBody_inv)
  with e4 show ?thesis
    by (auto dest: sameModel_expect simp: sameModel_modelInv)
qed

lemma modelInv_resetParser: "modelInv (resetParser src)"
  by (simp add: modelInv_def resetParser_def lookup_def)

lemma parse_modelInv:
  assumes "parse this src = Some (Inr (m, s'))"
  shows "m = model s' \<and> modelInv s'"
  using assms modelInv_resetParser [of src]
  by (auto simp: parse_reset split: if_splits option.splits sum.splits
      dest: parsePackage_inv)

section \<open>Properties of every parsed Model\<close>

text \<open>
  C4. In a Model returned by \<open>parse\<close>, every element is stored under its own id, and every id
  in the \<open>children\<close> of an element \<open>e\<close> resolves, through \<open>getElement\<close>, to an element whose
  \<open>parent\<close> is the id of \<open>e\<close>.
\<close>

theorem parsed_children_point_back_to_parent:
  assumes "parse this src = Some (Inr (m, s'))" and "(k, e) \<in> set (elements m)"
    and "c \<in> set (children e)"
  shows "elem_id e = k
     \<and> (\<exists>e'. getElement (Some m) c = Some e' \<and> parent e' = Some (elem_id e))"
proof -
  from assms(1) have m: "m = model s'" and inv: "modelInv s'"
    by (auto dest: parse_modelInv)
  from inv m assms(2) have "lookup s' k = Some e"
    by (simp add: modelInv_def lookup_def)
  with inv have "elem_id e = k" "childrenOk (lookup s') k (children e)"
    by (auto simp: modelInv_def)
  with assms(3) m show ?thesis
    by (auto simp: childrenOk_def getElement_def lookup_def)
qed

theorem parsed_children_point_back_to_parent_witness:
  "case parseSysML ''package Pkg { part def P { port p1; port p2; part a; part b; } }'' of
     Some (Inr (m, s')) \<Rightarrow>
       (case map_of (elements m) ''elem_2'' of
          Some e \<Rightarrow>
            (''elem_2'', e) \<in> set (elements m) \<and> ''elem_3'' \<in> set (children e)
            \<and> elem_id e = ''elem_2''
            \<and> (\<exists>e'. getElement (Some m) ''elem_3'' = Some e' \<and> parent e' = Some ''elem_2'')
        | None \<Rightarrow> False)
   | _ \<Rightarrow> False"
proof -
  have "case parseSysML ''package Pkg { part def P { port p1; port p2; part a; part b; } }'' of
     Some (Inr (m, s')) \<Rightarrow>
       (case map_of (elements m) ''elem_2'' of
          Some e \<Rightarrow> (''elem_2'', e) \<in> set (elements m) \<and> ''elem_3'' \<in> set (children e)
        | None \<Rightarrow> False)
   | _ \<Rightarrow> False"
    by code_simp
  then obtain m s' e where
    p: "parse newSysMLParser ''package Pkg { part def P { port p1; port p2; part a; part b; } }''
          = Some (Inr (m, s'))"
    and l: "map_of (elements m) ''elem_2'' = Some e"
    and h: "(''elem_2'', e) \<in> set (elements m)" "''elem_3'' \<in> set (children e)"
    by (auto simp: parseSysML_def split: option.splits sum.splits)
  from parsed_children_point_back_to_parent [OF p h] p l h show ?thesis
    by (auto simp: parseSysML_def)
qed

text \<open>
  C5. In a Model returned by \<open>parse\<close>, the \<open>ports\<close> and the \<open>parts\<close> of a part definition, and
  the \<open>states\<close> and the \<open>transitions\<close> of a state definition, are sublists of its
  \<open>children\<close>: the same ids in the same relative order. For a part definition \<open>P\<close> declaring
  ports \<open>p1\<close>, \<open>p2\<close> and then parts \<open>a\<close>, \<open>b\<close>, \<open>getChildren\<close> returns these four elements
  in this order, the first two are its \<open>ports\<close> and the last two its \<open>parts\<close>.
\<close>

theorem parsed_lists_are_sublists_of_children:
  "(parse this src = Some (Inr (m, s')) \<and> (k, e) \<in> set (elements m) \<longrightarrow>
      (\<forall>ps qs. variant e = PartDef ps qs \<longrightarrow>
         subseq ps (children e) \<and> subseq qs (children e))
    \<and> (\<forall>ss ts. variant e = StateDef ss ts \<longrightarrow>
         subseq ss (children e) \<and> subseq ts (children e)))
   \<and> (case parseSysML ''package Pkg { part def P { port p1; port p2; part a; part b; } }'' of
        Some (Inr (pm, _)) \<Rightarrow>
          map_option name (getElement (Some pm) ''elem_2'') = Some ''P''
          \<and> map name (getChildren (Some pm) ''elem_2'') = [''p1'', ''p2'', ''a'', ''b'']
          \<and> map elem_id (getChildren (Some pm) ''elem_2'')
              = [''elem_3'', ''elem_4'', ''elem_5'', ''elem_6'']
          \<and> map_option variant (getElement (Some pm) ''elem_2'')
              = Some (PartDef [''elem_3'', ''elem_4''] [''elem_5'', ''elem_6''])
      | _ \<Rightarrow> False)"
proof (intro conjI impI)
  assume a: "parse this src = Some (Inr (m, s')) \<and> (k, e) \<in> set (elements m)"
  then have m: "m = model s'" and inv: "modelInv s'"
    by (auto dest: parse_modelInv)
  from inv m a have "lookup s' k = Some e"
    by (simp add: modelInv_def lookup_def)
  with inv have "listsInChildren e"
    by (auto simp: modelInv_def)
  then show "\<forall>ps qs. variant e = PartDef ps qs \<longrightarrow>
         subseq ps (children e) \<and> subseq qs (children e)"
    and "\<forall>ss ts. variant e = StateDef ss ts \<longrightarrow>
         subseq ss (children e) \<and> subseq ts (children e)"
    by (auto simp: listsInChildren_def)
next
  show "case parseSysML ''package Pkg { part def P { port p1; port p2; part a; part b; } }'' of
        Some (Inr (pm, _)) \<Rightarrow>
          map_option name (getElement (Some pm) ''elem_2'') = Some ''P''
          \<and> map name (getChildren (Some pm) ''elem_2'') = [''p1'', ''p2'', ''a'', ''b'']
          \<and> map elem_id (getChildren (Some pm) ''elem_2'')
              = [''elem_3'', ''elem_4'', ''elem_5'', ''elem_6'']
          \<and> map_option variant (getElement (Some pm) ''elem_2'')
              = Some (PartDef [''elem_3'', ''elem_4''] [''elem_5'', ''elem_6''])
      | _ \<Rightarrow> False"
    by code_simp
qed

theorem parsed_lists_are_sublists_of_children_witness:
  "case parseSysML ''package P { state def S { state OPEN; state CLOSED; transition t1 first OPEN accept go then CLOSED; } }'' of
     Some (Inr (m, s')) \<Rightarrow>
       (case map_of (elements m) ''elem_2'' of
          Some e \<Rightarrow>
            (''elem_2'', e) \<in> set (elements m)
            \<and> variant e = StateDef [''elem_3'', ''elem_4''] [''elem_5'']
            \<and> subseq [''elem_3'', ''elem_4''] (children e)
            \<and> subseq [''elem_5''] (children e)
        | None \<Rightarrow> False)
   | _ \<Rightarrow> False"
proof -
  have "case parseSysML ''package P { state def S { state OPEN; state CLOSED; transition t1 first OPEN accept go then CLOSED; } }'' of
     Some (Inr (m, s')) \<Rightarrow>
       (case map_of (elements m) ''elem_2'' of
          Some e \<Rightarrow>
            (''elem_2'', e) \<in> set (elements m)
            \<and> variant e = StateDef [''elem_3'', ''elem_4''] [''elem_5'']
        | None \<Rightarrow> False)
   | _ \<Rightarrow> False"
    by code_simp
  then obtain m s' e where
    p: "parse newSysMLParser ''package P { state def S { state OPEN; state CLOSED; transition t1 first OPEN accept go then CLOSED; } }''
          = Some (Inr (m, s'))"
    and l: "map_of (elements m) ''elem_2'' = Some e"
    and h: "(''elem_2'', e) \<in> set (elements m)"
    and v: "variant e = StateDef [''elem_3'', ''elem_4''] [''elem_5'']"
    by (auto simp: parseSysML_def split: option.splits sum.splits)
  from parsed_lists_are_sublists_of_children
    [of newSysMLParser
      "''package P { state def S { state OPEN; state CLOSED; transition t1 first OPEN accept go then CLOSED; } }''"
      m s' "''elem_2''" e]
    p l h v
  show ?thesis
    by (simp add: parseSysML_def)
qed

end
